theory Spec2Isabelle
  imports Main "HOL-Library.Word" "HOL-Library.Multiset"
begin

section \<open>Data model of cron.go\<close>

text \<open>
  A \<^verbatim>\<open>time.Time\<close> is modelled by the instant it denotes, counted from Go's zero time
  (January 1, year 1, 00:00:00 UTC), so the zero time is \<open>0\<close>. \<^verbatim>\<open>IsZero\<close>,
  \<^verbatim>\<open>Before\<close> and \<^verbatim>\<open>After\<close> compare instants only; \<^verbatim>\<open>In(location)\<close> does not
  change the instant and is therefore the identity here.
\<close>

type_synonym time = int

definition IsZero :: "time \<Rightarrow> bool" where
  "IsZero t = (t = 0)"

definition Before :: "time \<Rightarrow> time \<Rightarrow> bool" where
  "Before t u = (t < u)"

definition After :: "time \<Rightarrow> time \<Rightarrow> bool" where
  "After t u = (u < t)"

text \<open>\<^verbatim>\<open>int32\<close>: 32-bit words, compared as signed values; \<open>+\<close> wraps around as in Go.\<close>

type_synonym int32 = "32 word"

text \<open>The \<^verbatim>\<open>interface{}\<close> values that occur in the file.\<close>

datatype val = Int32 int32 | Str string | Slice "val list" | Other

datatype panic = IndexOutOfRange | InterfaceConversion | Raised string

text \<open>
  What one execution of \<^verbatim>\<open>Job.Run(args...)\<close> does as far as its caller can tell:
  it returns, or it panics with a value.
\<close>

datatype outcome = Returns | Panicking panic

record Entry =
  Schedule :: "time \<Rightarrow> time"
  Next :: time
  Prev :: time
  Job :: "val list \<Rightarrow> outcome"
  Id_entry :: int32
  ArgLen :: int32
  Tag :: string
  Task :: string
  Params :: string

text \<open>
  The fields of \<^verbatim>\<open>Cron\<close>. The four channels are unbuffered and hold no state between
  a send and its receive; they appear as the messages below. \<^verbatim>\<open>ErrorLog\<close> is a pointer
  to a logger (\<open>None\<close> is \<^verbatim>\<open>nil\<close>). The registry \<^verbatim>\<open>[]*Entry\<close> is a list of entry values:
  every pointer in it is created by \<^verbatim>\<open>Schedule\<close>, stored once and never handed out.
\<close>

record Cron =
  id_cron :: int32
  entries :: "Entry list"
  running :: bool
  ErrorLog :: "nat option"
  location :: string

subsection \<open>byTime\<close>

definition Less :: "Entry \<Rightarrow> Entry \<Rightarrow> bool" where
  "Less a b =
     (if IsZero (Next a) then False
      else if IsZero (Next b) then True
      else Before (Next a) (Next b))"

text \<open>
  \<^verbatim>\<open>sort.Sort\<close> belongs to Go's standard library. It is modelled by an insertion sort
  that looks at the entries through \<open>Less\<close> only. What \<^verbatim>\<open>sort.Sort\<close> promises is the
  postcondition \<open>sorted_byTime\<close> on a permutation of its input.
\<close>

fun insert_byTime :: "Entry \<Rightarrow> Entry list \<Rightarrow> Entry list" where
  "insert_byTime e [] = [e]"
| "insert_byTime e (x # xs) = (if Less e x then e # x # xs else x # insert_byTime e xs)"

definition sort_byTime :: "Entry list \<Rightarrow> Entry list" where
  "sort_byTime xs = foldr insert_byTime xs []"

definition sorted_byTime :: "Entry list \<Rightarrow> bool" where
  "sorted_byTime xs = sorted_wrt (\<lambda>a b. \<not> Less b a) xs"

subsection \<open>Identities\<close>

definition nextId :: "Cron \<Rightarrow> int32 \<times> Cron" where
  "nextId c = (let oid = id_cron c in (oid, c\<lparr>id_cron := id_cron c + 1\<rparr>))"

definition NewWithLocation :: "string \<Rightarrow> Cron" where
  "NewWithLocation loc =
     \<lparr>id_cron = 0, entries = [], running = False, ErrorLog = None, location = loc\<rparr>"

subsection \<open>Messages and effects\<close>

text \<open>What a caller sends on the channels \<^verbatim>\<open>add\<close>, \<^verbatim>\<open>snapshot\<close>, \<^verbatim>\<open>remove\<close>, \<^verbatim>\<open>stop\<close>.\<close>

datatype msg = Add_msg Entry | Snapshot_msg | Remove_msg int32 | Stop_msg

text \<open>
  What the \<^verbatim>\<open>select\<close> of the loop receives: the timer's time, or a message; the add
  case also reads the clock (\<^verbatim>\<open>c.now()\<close>).
\<close>

datatype recv = TimerC time | AddC Entry time | SnapshotC | RemoveC int32 | StopC

text \<open>
  The effects of the code beyond the fields of \<^verbatim>\<open>Cron\<close>, in the order they happen:
  \<^item> \<open>Go_run\<close>: \<^verbatim>\<open>go c.run()\<close>;
  \<^item> \<open>Send m\<close>: a send on one of the channels;
  \<^item> \<open>Go_runWithRecovery e args\<close>: \<^verbatim>\<open>go c.runWithRecovery(e.Job, args...)\<close>, recorded
    with the entry \<open>e\<close> as it is when the statement runs;
  \<^item> \<open>Reply es\<close>: the loop's answer on the snapshot channel;
  \<^item> \<open>Result es\<close>: the value \<^verbatim>\<open>Entries\<close> returns without the loop;
  \<^item> \<open>Appended e\<close>: \<^verbatim>\<open>c.entries = append(c.entries, e)\<close>;
  \<^item> \<open>Panics p\<close>: the call panics in its caller's goroutine.
\<close>

datatype effect =
    Go_run
  | Send msg
  | Go_runWithRecovery Entry "val list"
  | Reply "Entry list"
  | Result "Entry list"
  | Appended Entry
  | Panics panic

subsection \<open>entrySnapshot\<close>

text \<open>The struct literal names seven fields; the other two get Go's zero value.\<close>

definition entrySnapshot :: "Cron \<Rightarrow> Entry list" where
  "entrySnapshot c =
     map (\<lambda>e. \<lparr>Schedule = Schedule e, Next = Next e, Prev = Prev e, Job = Job e,
                Id_entry = Id_entry e, ArgLen = ArgLen e, Tag = Tag e,
                Task = [], Params = []\<rparr>) (entries c)"

subsection \<open>The loop of run\<close>

text \<open>The \<^verbatim>\<open>switch e.ArgLen\<close> of the timer case.\<close>

definition dispatch :: "Entry \<Rightarrow> effect list" where
  "dispatch e =
     (if ArgLen e = 0 then [Go_runWithRecovery e []]
      else if ArgLen e = 1 then [Go_runWithRecovery e [Int32 (Id_entry e)]]
      else if ArgLen e = 2 then [Go_runWithRecovery e [Int32 (Id_entry e), Str (Tag e)]]
      else if ArgLen e = 3 then
        [Go_runWithRecovery e [Int32 (Id_entry e), Str (Tag e), Str (Task e)]]
      else if ArgLen e = 4 then
        [Go_runWithRecovery e [Int32 (Id_entry e), Str (Tag e), Str (Task e), Str (Params e)]]
      else [])"

text \<open>The \<^verbatim>\<open>for _, e := range c.entries\<close> of the timer case, with its \<^verbatim>\<open>break\<close>.\<close>

fun run_due :: "time \<Rightarrow> Entry list \<Rightarrow> Entry list \<times> effect list" where
  "run_due now [] = ([], [])"
| "run_due now (e # es) =
     (if After (Next e) now \<or> IsZero (Next e) then (e # es, [])
      else
        (let (es', out) = run_due now es
         in (e\<lparr>Prev := Next e, Next := Schedule e now\<rparr> # es', dispatch e @ out)))"

text \<open>How a case of the \<^verbatim>\<open>select\<close> leaves the inner \<^verbatim>\<open>for\<close>.\<close>

datatype ctl = Break | Continue | Return

definition select_case :: "Cron \<Rightarrow> recv \<Rightarrow> Cron \<times> effect list \<times> ctl" where
  "select_case c r =
     (case r of
        TimerC now \<Rightarrow>
          (let (es, out) = run_due now (entries c) in (c\<lparr>entries := es\<rparr>, out, Break))
      | AddC newEntry now \<Rightarrow>
          (let e1 = newEntry\<lparr>Next := Schedule newEntry now\<rparr>;
               (i, c1) = nextId c;
               e2 = e1\<lparr>Id_entry := i\<rparr>
           in (c1\<lparr>entries := entries c1 @ [e2]\<rparr>, [Appended e2], Break))
      | SnapshotC \<Rightarrow> (c, [Reply (entrySnapshot c)], Continue)
      | RemoveC targetId \<Rightarrow>
          (if length (entries c) \<le> 0 then (c, [], Continue)
           else if word_sle 0 targetId then
             (c\<lparr>entries := filter (\<lambda>v. targetId \<noteq> Id_entry v) (entries c)\<rparr>, [], Break)
           else if - 1 = targetId then (c\<lparr>entries := []\<rparr>, [], Break)
           else if - 2 = targetId then (c\<lparr>entries := drop 1 (entries c)\<rparr>, [], Break)
           else if - 3 = targetId then
             (c\<lparr>entries := take (length (entries c) - 1) (entries c)\<rparr>, [], Break)
           else (c, [], Break))
      | StopC \<Rightarrow> (c, [], Return))"

text \<open>
  The first lines of \<^verbatim>\<open>run\<close>, up to the first \<^verbatim>\<open>select\<close>: every entry's \<open>Next\<close> is
  computed and the registry is sorted.
\<close>

definition run_init :: "Cron \<Rightarrow> time \<Rightarrow> Cron" where
  "run_init c now =
     c\<lparr>entries := sort_byTime (map (\<lambda>entry. entry\<lparr>Next := Schedule entry now\<rparr>) (entries c))\<rparr>"

text \<open>
  One receive of the loop, from one \<^verbatim>\<open>select\<close> to the next: after \<^verbatim>\<open>break\<close> the outer
  loop sorts again before it blocks; after \<^verbatim>\<open>continue\<close> it does not.
\<close>

definition loop_pass :: "Cron \<Rightarrow> recv \<Rightarrow> Cron \<times> effect list" where
  "loop_pass c r =
     (case select_case c r of
        (c', out, Break) \<Rightarrow> (c'\<lparr>entries := sort_byTime (entries c')\<rparr>, out)
      | (c', out, Continue) \<Rightarrow> (c', out)
      | (c', out, Return) \<Rightarrow> (c', out))"

subsection \<open>The methods a caller uses\<close>

definition then_do :: "panic + 'a \<Rightarrow> ('a \<Rightarrow> panic + 'b) \<Rightarrow> panic + 'b" where
  "then_do r f = (case r of Inl p \<Rightarrow> Inl p | Inr x \<Rightarrow> f x)"

text \<open>The type assertions \<^verbatim>\<open>.(int32)\<close>, \<^verbatim>\<open>.(string)\<close> and \<^verbatim>\<open>.([]interface{})\<close>.\<close>

definition as_int32 :: "val \<Rightarrow> panic + int32" where
  "as_int32 v = (case v of Int32 n \<Rightarrow> Inr n | _ \<Rightarrow> Inl InterfaceConversion)"

definition as_string :: "val \<Rightarrow> panic + string" where
  "as_string v = (case v of Str s \<Rightarrow> Inr s | _ \<Rightarrow> Inl InterfaceConversion)"

definition as_slice :: "val \<Rightarrow> panic + val list" where
  "as_slice v = (case v of Slice vs \<Rightarrow> Inr vs | _ \<Rightarrow> Inl InterfaceConversion)"

text \<open>The \<^verbatim>\<open>switch len(extArgsInner)\<close> of \<^verbatim>\<open>Schedule\<close>.\<close>

definition ext_fields :: "Entry \<Rightarrow> val list \<Rightarrow> panic + Entry" where
  "ext_fields entry extArgsInner =
     (if length extArgsInner = 1 then
        then_do (as_int32 (extArgsInner ! 0)) (\<lambda>n. Inr (entry\<lparr>ArgLen := n\<rparr>))
      else if length extArgsInner = 2 then
        then_do (as_int32 (extArgsInner ! 0)) (\<lambda>n.
        then_do (as_string (extArgsInner ! 1)) (\<lambda>t. Inr (entry\<lparr>ArgLen := n, Tag := t\<rparr>)))
      else if length extArgsInner = 3 then
        then_do (as_int32 (extArgsInner ! 0)) (\<lambda>n.
        then_do (as_string (extArgsInner ! 1)) (\<lambda>t.
        then_do (as_string (extArgsInner ! 2)) (\<lambda>k.
          Inr (entry\<lparr>ArgLen := n, Tag := t, Task := k\<rparr>))))
      else if length extArgsInner = 4 then
        then_do (as_int32 (extArgsInner ! 0)) (\<lambda>n.
        then_do (as_string (extArgsInner ! 1)) (\<lambda>t.
        then_do (as_string (extArgsInner ! 2)) (\<lambda>k.
        then_do (as_string (extArgsInner ! 3)) (\<lambda>p.
          Inr (entry\<lparr>ArgLen := n, Tag := t, Task := k, Params := p\<rparr>)))))
      else Inr entry)"

text \<open>\<^verbatim>\<open>Cron.Schedule\<close> (the name \<open>Schedule\<close> is the field of \<open>Entry\<close>).\<close>

definition Cron_Schedule ::
  "Cron \<Rightarrow> (time \<Rightarrow> time) \<Rightarrow> (val list \<Rightarrow> outcome) \<Rightarrow> val list \<Rightarrow> panic + Cron \<times> effect list"
where
  "Cron_Schedule c schedule cmd extArgs =
     (let entry = \<lparr>Schedule = schedule, Next = 0, Prev = 0, Job = cmd, Id_entry = 0,
                    ArgLen = 0, Tag = [], Task = [], Params = []\<rparr>
      in case extArgs of
           [] \<Rightarrow> Inl IndexOutOfRange
         | a # _ \<Rightarrow>
             then_do (as_slice a) (\<lambda>extArgsInner.
             then_do (ext_fields entry extArgsInner) (\<lambda>entry.
               if \<not> running c then
                 (let (i, c1) = nextId c;
                      entry = entry\<lparr>Id_entry := i\<rparr>
                  in Inr (c1\<lparr>entries := entries c1 @ [entry]\<rparr>, [Appended entry]))
               else Inr (c, [Send (Add_msg entry)]))))"

text \<open>
  \<^verbatim>\<open>Entries\<close>: while running it sends on the snapshot channel and returns what the
  loop replies.
\<close>

definition Entries :: "Cron \<Rightarrow> Cron \<times> effect list" where
  "Entries c =
     (if running c then (c, [Send Snapshot_msg]) else (c, [Result (entrySnapshot c)]))"

definition Start :: "Cron \<Rightarrow> Cron \<times> effect list" where
  "Start c = (if running c then (c, []) else (c\<lparr>running := True\<rparr>, [Go_run]))"

definition Stop :: "Cron \<Rightarrow> Cron \<times> effect list" where
  "Stop c = (if \<not> running c then (c, []) else (c\<lparr>running := False\<rparr>, [Send Stop_msg]))"

definition RemoveAll :: "Cron \<Rightarrow> Cron \<times> effect list" where
  "RemoveAll c =
     (if \<not> running c then (c\<lparr>entries := []\<rparr>, []) else (c, [Send (Remove_msg (- 1))]))"

definition Remove :: "Cron \<Rightarrow> int32 \<Rightarrow> Cron \<times> effect list" where
  "Remove c i =
     (if \<not> running c then
        (if length (entries c) \<le> 0 then (c, [])
         else
           (let newEntrys =
                  (if word_sle 0 i then filter (\<lambda>v. i \<noteq> Id_entry v) (entries c) else [])
            in (c\<lparr>entries := newEntrys\<rparr>, [])))
      else (c, [Send (Remove_msg i)]))"

definition RemoveFirst :: "Cron \<Rightarrow> Cron \<times> effect list" where
  "RemoveFirst c =
     (if \<not> running c then
        (if length (entries c) \<le> 0 then (c, [])
         else (c\<lparr>entries := drop 1 (entries c)\<rparr>, []))
      else (c, [Send (Remove_msg (- 2))]))"

definition RemoveLast :: "Cron \<Rightarrow> Cron \<times> effect list" where
  "RemoveLast c =
     (if \<not> running c then
        (if length (entries c) \<le> 0 then (c, [])
         else (c\<lparr>entries := take (length (entries c) - 1) (entries c)\<rparr>, []))
      else (c, [Send (Remove_msg (- 3))]))"

subsection \<open>runWithRecovery and logf\<close>

text \<open>
  The log sinks: the standard logger of package \<^verbatim>\<open>log\<close>, and the loggers an
  \<^verbatim>\<open>ErrorLog\<close> can point to. Each holds the lines printed to it.
\<close>

datatype logger = Std | Logger nat

type_synonym logs = "logger \<Rightarrow> string list"

definition logf :: "Cron \<Rightarrow> string \<Rightarrow> logs \<Rightarrow> logs" where
  "logf c line w =
     (case ErrorLog c of
        Some l \<Rightarrow> w(Logger l := w (Logger l) @ [line])
      | None \<Rightarrow> w(Std := w Std @ [line]))"

text \<open>How \<^verbatim>\<open>%v\<close> prints a panic value.\<close>

definition render :: "panic \<Rightarrow> string" where
  "render p =
     (case p of
        IndexOutOfRange \<Rightarrow> ''runtime error: index out of range''
      | InterfaceConversion \<Rightarrow> ''interface conversion''
      | Raised s \<Rightarrow> s)"

definition report :: "panic \<Rightarrow> string \<Rightarrow> string" where
  "report r buf = ''cron: panic running job: '' @ render r @ [CHR 0x0A] @ buf"

text \<open>
  \<^verbatim>\<open>recover()\<close> in a deferred function: while the goroutine panics it returns the panic
  value and the panic stops; otherwise it returns \<^verbatim>\<open>nil\<close>. (A panic value is never
  \<^verbatim>\<open>nil\<close>: since Go 1.21 \<^verbatim>\<open>panic(nil)\<close> panics with a \<^verbatim>\<open>*runtime.PanicNilError\<close>.)
\<close>

definition recover :: "outcome \<Rightarrow> panic option \<times> outcome" where
  "recover st = (case st of Panicking p \<Rightarrow> (Some p, Returns) | Returns \<Rightarrow> (None, Returns))"

text \<open>
  \<open>stack\<close> is the trace \<^verbatim>\<open>runtime.Stack\<close> has to write; it writes as much of it as the
  buffer holds. The result is \<open>Inl\<close> when a panic leaves \<^verbatim>\<open>runWithRecovery\<close>.
\<close>

definition runWithRecovery ::
  "Cron \<Rightarrow> (val list \<Rightarrow> outcome) \<Rightarrow> val list \<Rightarrow> string \<Rightarrow> logs \<Rightarrow> panic + logs"
where
  "runWithRecovery c j args stack w =
     (let st = j args;
          (r, st') = recover st;
          w' = (case r of
                  Some p \<Rightarrow>
                    (let size = 64 * 2 ^ 10; buf = take size stack
                     in logf c (report p buf) w)
                | None \<Rightarrow> w)
      in case st' of Returns \<Rightarrow> Inr w' | Panicking p \<Rightarrow> Inl p)"

subsection \<open>A caller and the loop together\<close>

text \<open>
  One caller uses the engine. A call runs to its end; where it launches the loop or
  sends on a channel, the loop takes that up and runs on to its next \<^verbatim>\<open>select\<close>,
  where it waits. Between two calls the timer may fire. The time of an event is
  the clock reading the code takes while it handles the event.
\<close>

datatype op =
    Op_Schedule "time \<Rightarrow> time" "val list \<Rightarrow> outcome" "val list"
  | Op_Entries
  | Op_Start
  | Op_Stop
  | Op_Remove int32
  | Op_RemoveAll
  | Op_RemoveFirst
  | Op_RemoveLast

datatype event = Call op time | TimerFires time

definition call :: "Cron \<Rightarrow> op \<Rightarrow> panic + Cron \<times> effect list" where
  "call c f =
     (case f of
        Op_Schedule schedule cmd extArgs \<Rightarrow> Cron_Schedule c schedule cmd extArgs
      | Op_Entries \<Rightarrow> Inr (Entries c)
      | Op_Start \<Rightarrow> Inr (Start c)
      | Op_Stop \<Rightarrow> Inr (Stop c)
      | Op_Remove i \<Rightarrow> Inr (Remove c i)
      | Op_RemoveAll \<Rightarrow> Inr (RemoveAll c)
      | Op_RemoveFirst \<Rightarrow> Inr (RemoveFirst c)
      | Op_RemoveLast \<Rightarrow> Inr (RemoveLast c))"

text \<open>What the loop's goroutine does with an effect of the caller.\<close>

definition deliver :: "time \<Rightarrow> Cron \<Rightarrow> effect \<Rightarrow> Cron \<times> effect list" where
  "deliver now c a =
     (case a of
        Go_run \<Rightarrow> (run_init c now, [])
      | Send (Add_msg e) \<Rightarrow> loop_pass c (AddC e now)
      | Send Snapshot_msg \<Rightarrow> loop_pass c SnapshotC
      | Send (Remove_msg i) \<Rightarrow> loop_pass c (RemoveC i)
      | Send Stop_msg \<Rightarrow> loop_pass c StopC
      | _ \<Rightarrow> (c, []))"

fun deliver_all :: "time \<Rightarrow> Cron \<Rightarrow> effect list \<Rightarrow> Cron \<times> effect list" where
  "deliver_all now c [] = (c, [])"
| "deliver_all now c (a # as) =
     (let (c1, out1) = deliver now c a;
          (c2, out2) = deliver_all now c1 as
      in (c2, a # out1 @ out2))"

definition exec1 :: "Cron \<Rightarrow> event \<Rightarrow> Cron \<times> effect list" where
  "exec1 c ev =
     (case ev of
        Call f now \<Rightarrow>
          (case call c f of
             Inl p \<Rightarrow> (c, [Panics p])
           | Inr (c1, acts) \<Rightarrow> deliver_all now c1 acts)
      | TimerFires now \<Rightarrow> (if running c then loop_pass c (TimerC now) else (c, [])))"

fun exec :: "Cron \<Rightarrow> event list \<Rightarrow> Cron \<times> effect list" where
  "exec c [] = (c, [])"
| "exec c (ev # evs) =
     (let (c1, out1) = exec1 c ev;
          (c2, out2) = exec c1 evs
      in (c2, out1 @ out2))"

subsection \<open>Notions used in the statements\<close>

text \<open>Example data for the concrete instances below.\<close>

definition job_ok :: "val list \<Rightarrow> outcome" where
  "job_ok args = Returns"

definition job_boom :: "val list \<Rightarrow> outcome" where
  "job_boom args = Panicking (Raised ''boom'')"

text \<open>An entry with identity \<open>i\<close> whose schedule always answers \<open>t\<close> and whose \<open>Next\<close> is \<open>t\<close>.\<close>

definition fixed_entry :: "time \<Rightarrow> int32 \<Rightarrow> Entry" where
  "fixed_entry t i =
     \<lparr>Schedule = (\<lambda>after. t), Next = t, Prev = 0, Job = job_ok, Id_entry = i,
      ArgLen = 0, Tag = [], Task = [], Params = []\<rparr>"

definition cron_of :: "bool \<Rightarrow> Entry list \<Rightarrow> Cron" where
  "cron_of r es =
     \<lparr>id_cron = word_of_nat (length es), entries = es, running = r, ErrorLog = None,
      location = ''UTC''\<rparr>"

text \<open>
  An entry is due at \<open>now\<close> when its \<open>Next\<close> is at or before \<open>now\<close> and is not the zero
  time; firing it moves \<open>Next\<close> to \<open>Prev\<close> and asks the schedule for the new \<open>Next\<close>.
\<close>

definition due :: "time \<Rightarrow> Entry \<Rightarrow> bool" where
  "due now e = (Next e \<le> now \<and> \<not> IsZero (Next e))"

definition fire :: "time \<Rightarrow> Entry \<Rightarrow> Entry" where
  "fire now e = e\<lparr>Prev := Next e, Next := Schedule e now\<rparr>"

text \<open>The values a job can be handed, in their fixed order.\<close>

definition aux_values :: "Entry \<Rightarrow> val list" where
  "aux_values e = [Int32 (Id_entry e), Str (Tag e), Str (Task e), Str (Params e)]"

text \<open>
  The entry \<^verbatim>\<open>Schedule\<close> builds before it looks at \<^verbatim>\<open>c.running\<close>, or the panic of
  its index expression or type assertions.
\<close>

definition new_entry ::
  "(time \<Rightarrow> time) \<Rightarrow> (val list \<Rightarrow> outcome) \<Rightarrow> val list \<Rightarrow> panic + Entry"
where
  "new_entry schedule cmd extArgs =
     (case extArgs of
        [] \<Rightarrow> Inl IndexOutOfRange
      | a # _ \<Rightarrow>
          then_do (as_slice a)
            (ext_fields \<lparr>Schedule = schedule, Next = 0, Prev = 0, Job = cmd, Id_entry = 0,
                          ArgLen = 0, Tag = [], Task = [], Params = []\<rparr>))"

text \<open>A schedule that answers the zero time ("never") whatever it is asked.\<close>

definition never_fires :: "(time \<Rightarrow> time) \<Rightarrow> bool" where
  "never_fires s = (\<forall>t. IsZero (s t))"

text \<open>In a registry, every entry with such a schedule has the zero time as \<open>Next\<close>.\<close>

definition never_is_zero :: "Entry list \<Rightarrow> bool" where
  "never_is_zero es = (\<forall>e\<in>set es. never_fires (Schedule e) \<longrightarrow> IsZero (Next e))"

text \<open>The calls that take entries out of the registry.\<close>

fun is_removal :: "event \<Rightarrow> bool" where
  "is_removal (Call (Op_Remove i) now) = True"
| "is_removal (Call Op_RemoveAll now) = True"
| "is_removal (Call Op_RemoveFirst now) = True"
| "is_removal (Call Op_RemoveLast now) = True"
| "is_removal ev = False"

text \<open>The identities given out in a run, read off the entries appended to the registry.\<close>

fun appended_id :: "effect \<Rightarrow> int32 list" where
  "appended_id (Appended e) = [Id_entry e]"
| "appended_id x = []"

definition assigned_ids :: "effect list \<Rightarrow> int32 list" where
  "assigned_ids out = concat (map appended_id out)"

text \<open>\<open>n\<close> registrations in a row, and the identities they are given on a new engine.\<close>

definition registrations :: "nat \<Rightarrow> event list" where
  "registrations n = replicate n (Call (Op_Schedule (\<lambda>after. after + 60) job_ok [Slice []]) 0)"

definition ids_of_registrations :: "nat \<Rightarrow> int32 list" where
  "ids_of_registrations n = assigned_ids (snd (exec (NewWithLocation ''UTC'') (registrations n)))"

text \<open>The snapshots a caller of \<^verbatim>\<open>Entries\<close> gets in a run.\<close>

fun snapshot_of :: "effect \<Rightarrow> Entry list list" where
  "snapshot_of (Reply es) = [es]"
| "snapshot_of (Result es) = [es]"
| "snapshot_of x = []"

definition snapshots :: "effect list \<Rightarrow> Entry list list" where
  "snapshots out = concat (map snapshot_of out)"

text \<open>
  What was registered, without the fire times: the loop computes \<open>Next\<close> and \<open>Prev\<close>
  while it runs, a stopped engine leaves them alone.
\<close>

definition core :: "Entry \<Rightarrow> Entry" where
  "core e = e\<lparr>Next := 0, Prev := 0\<rparr>"

definition same_contents :: "Entry list \<Rightarrow> Entry list \<Rightarrow> bool" where
  "same_contents es es' = (mset (map core es) = mset (map core es'))"

text \<open>
  The events of the amended C5: registrations, removals by an identity \<open>\<ge> 0\<close>,
  \<^verbatim>\<open>RemoveAll\<close>, snapshots, and the timer.
\<close>

fun allowed :: "event \<Rightarrow> bool" where
  "allowed (Call (Op_Schedule s j ext) now) = True"
| "allowed (Call (Op_Remove i) now) = word_sle 0 i"
| "allowed (Call Op_RemoveAll now) = True"
| "allowed (Call Op_Entries now) = True"
| "allowed (TimerFires now) = True"
| "allowed ev = False"

section \<open>The order of the registry\<close>

lemma Less_asym: "Less a b \<Longrightarrow> \<not> Less b a"
  by (auto simp: Less_def IsZero_def Before_def split: if_splits)

lemma Less_trans: "Less a b \<Longrightarrow> Less b c \<Longrightarrow> Less a c"
  by (auto simp: Less_def IsZero_def Before_def split: if_splits)

lemma mset_insert_byTime: "mset (insert_byTime e xs) = add_mset e (mset xs)"
  by (induction xs) auto

lemma mset_sort_byTime: "mset (sort_byTime xs) = mset xs"
  by (induction xs) (auto simp: sort_byTime_def mset_insert_byTime)

lemma set_sort_byTime: "set (sort_byTime xs) = set xs"
  using mset_sort_byTime [of xs] by (metis set_mset_mset)

lemma length_sort_byTime: "length (sort_byTime xs) = length xs"
  using mset_sort_byTime [of xs] by (metis size_mset)

lemma set_insert_byTime: "set (insert_byTime e xs) = insert e (set xs)"
  by (induction xs) auto

lemma sorted_insert_byTime: "sorted_byTime xs \<Longrightarrow> sorted_byTime (insert_byTime e xs)"
proof (induction xs)
  case Nil
  then show ?case by (simp add: sorted_byTime_def)
next
  case (Cons x xs)
  show ?case
  proof (cases "Less e x")
    case True
    have "\<not> Less y e" if "y \<in> set (x # xs)" for y
    proof -
      have "\<not> Less y x" using that Cons.prems True
        by (auto simp: sorted_byTime_def dest: Less_asym)
      with True show ?thesis using Less_trans Less_asym by blast
    qed
    with True Cons.prems show ?thesis by (simp add: sorted_byTime_def)
  next
    case False
    with Cons show ?thesis
      by (auto simp: sorted_byTime_def set_insert_byTime)
  qed
qed

lemma sorted_sort_byTime: "sorted_byTime (sort_byTime xs)"
proof (induction xs)
  case Nil
  show ?case by (simp add: sort_byTime_def sorted_byTime_def)
next
  case (Cons x xs)
  then show ?case using sorted_insert_byTime [of "sort_byTime xs" x]
    by (simp add: sort_byTime_def)
qed

lemma sorted_byTime_zero_last:
  assumes "sorted_byTime ys" "i < length ys" "j < length ys"
    "IsZero (Next (ys ! i))" "\<not> IsZero (Next (ys ! j))"
  shows "j < i"
proof (rule ccontr)
  assume "\<not> j < i"
  with assms have "i < j" by (cases "i = j") auto
  with assms have "\<not> Less (ys ! j) (ys ! i)"
    by (simp add: sorted_byTime_def sorted_wrt_iff_nth_less)
  with assms show False by (simp add: Less_def)
qed

text \<open>
  C1. The comparator: an entry whose \<open>Next\<close> is the zero time is never less than any
  entry; an entry with a real \<open>Next\<close> is less than every entry with the zero time;
  between two real times the earlier is less; two zero-time entries are not less than
  each other. Hence in every list that is sorted by this comparator, and so in the
  sorted registry, whatever the order of the input, every zero-time entry stands after
  every entry with a real time; sorting keeps the entries.
\<close>

theorem byTime_zero_sorts_last:
  "(IsZero (Next a) \<longrightarrow> \<not> Less a b) \<and>
   (\<not> IsZero (Next a) \<and> IsZero (Next b) \<longrightarrow> Less a b) \<and>
   (\<not> IsZero (Next a) \<and> \<not> IsZero (Next b) \<longrightarrow> Less a b = Before (Next a) (Next b)) \<and>
   (IsZero (Next a) \<and> IsZero (Next b) \<longrightarrow> \<not> Less a b \<and> \<not> Less b a) \<and>
   (sorted_byTime ys \<and> i < length ys \<and> j < length ys \<and>
      IsZero (Next (ys ! i)) \<and> \<not> IsZero (Next (ys ! j)) \<longrightarrow> j < i) \<and>
   sorted_byTime (sort_byTime xs) \<and> mset (sort_byTime xs) = mset xs \<and>
   (\<forall>i j. i < length xs \<and> j < length xs \<and> IsZero (Next (sort_byTime xs ! i)) \<and>
       \<not> IsZero (Next (sort_byTime xs ! j)) \<longrightarrow> j < i)"
proof -
  have z: "j < i" if "sorted_byTime ys" "i < length ys" "j < length ys"
    "IsZero (Next (ys ! i))" "\<not> IsZero (Next (ys ! j))" for ys i j
    using that by (rule sorted_byTime_zero_last)
  have "\<forall>i j. i < length xs \<and> j < length xs \<and> IsZero (Next (sort_byTime xs ! i)) \<and>
       \<not> IsZero (Next (sort_byTime xs ! j)) \<longrightarrow> j < i"
    using z [of "sort_byTime xs"] sorted_sort_byTime [of xs]
    by (simp add: length_sort_byTime)
  moreover have "sorted_byTime ys \<and> i < length ys \<and> j < length ys \<and>
      IsZero (Next (ys ! i)) \<and> \<not> IsZero (Next (ys ! j)) \<longrightarrow> j < i"
    using z by blast
  ultimately show ?thesis
    using sorted_sort_byTime [of xs]
    by (simp add: Less_def mset_sort_byTime)
qed

theorem byTime_zero_sorts_last_witness:
  "\<not> Less (fixed_entry 0 1) (fixed_entry 5 2) \<and>
   Less (fixed_entry 5 2) (fixed_entry 0 1) \<and>
   Less (fixed_entry 3 4) (fixed_entry 5 2) \<and>
   \<not> Less (fixed_entry 0 1) (fixed_entry 0 3) \<and> \<not> Less (fixed_entry 0 3) (fixed_entry 0 1) \<and>
   map Next (sort_byTime [fixed_entry 0 1, fixed_entry 5 2, fixed_entry 0 3, fixed_entry 3 4])
     = [3, 5, 0, 0] \<and>
   (1 :: nat) < 2"
proof -
  let ?xs = "[fixed_entry 0 1, fixed_entry 5 2, fixed_entry 0 3, fixed_entry 3 4]"
  have n: "map Next (sort_byTime ?xs) = [3, 5, 0, 0]"
    by (simp add: sort_byTime_def Less_def IsZero_def Before_def fixed_entry_def)
  show ?thesis
    using byTime_zero_sorts_last [of "fixed_entry 0 1" "fixed_entry 5 2" "sort_byTime ?xs" 2 1 ?xs]
      byTime_zero_sorts_last [of "fixed_entry 5 2" "fixed_entry 0 1" "[]" 0 0 "[]"]
      byTime_zero_sorts_last [of "fixed_entry 3 4" "fixed_entry 5 2" "[]" 0 0 "[]"]
      byTime_zero_sorts_last [of "fixed_entry 0 1" "fixed_entry 0 3" "[]" 0 0 "[]"]
      n
    by (simp add: IsZero_def Before_def fixed_entry_def)
qed

section \<open>The timer case\<close>

lemma run_due_scan:
  "run_due now es =
     (map (fire now) (takeWhile (due now) es) @ dropWhile (due now) es,
      concat (map dispatch (takeWhile (due now) es)))"
  by (induction es) (auto simp: due_def fire_def After_def IsZero_def)

lemma ArgLen_cases:
  fixes x :: int32
  assumes "0 \<le> sint x" "sint x \<le> 4"
  shows "x = 0 \<or> x = 1 \<or> x = 2 \<or> x = 3 \<or> x = 4"
proof -
  have "sint x = 0 \<or> sint x = 1 \<or> sint x = 2 \<or> sint x = 3 \<or> sint x = 4"
    using assms by arith
  moreover have "x = word_of_int (sint x)" by simp
  ultimately show ?thesis by (metis of_int_0 of_int_1 of_int_numeral)
qed

lemma dispatch_in_range:
  assumes "0 \<le> sint (ArgLen e)" "sint (ArgLen e) \<le> 4"
  shows "dispatch e = [Go_runWithRecovery e (take (nat (sint (ArgLen e))) (aux_values e))]"
proof -
  consider "ArgLen e = 0" | "ArgLen e = 1" | "ArgLen e = 2" | "ArgLen e = 3" | "ArgLen e = 4"
    using ArgLen_cases [OF assms] by blast
  then show ?thesis
  proof cases
    case 1 then show ?thesis by (simp add: dispatch_def aux_values_def)
  next
    case 2 then show ?thesis by (simp add: dispatch_def aux_values_def)
  next
    case 3 then show ?thesis by (simp add: dispatch_def aux_values_def)
  next
    case 4 then show ?thesis by (simp add: dispatch_def aux_values_def)
  next
    case 5 then show ?thesis by (simp add: dispatch_def aux_values_def)
  qed
qed

lemma dispatch_out_of_range:
  assumes "sint (ArgLen e) < 0 \<or> 4 < sint (ArgLen e)"
  shows "dispatch e = []"
  using assms by (auto simp: dispatch_def)

lemma not_due_after:
  "\<not> due now e \<Longrightarrow> \<not> Less y e \<Longrightarrow> \<not> due now y"
  unfolding due_def Less_def IsZero_def Before_def
  by (cases "Next y = 0"; cases "Next e = 0"; simp)

lemma sorted_byTime_due_prefix:
  "sorted_byTime es \<Longrightarrow> takeWhile (due now) es = filter (due now) es"
proof (induction es)
  case Nil
  show ?case by simp
next
  case (Cons e es)
  then have tl: "sorted_byTime es" and le: "\<forall>y\<in>set es. \<not> Less y e"
    by (simp_all add: sorted_byTime_def)
  show ?case
  proof (cases "due now e")
    case True
    with Cons.IH tl show ?thesis by simp
  next
    case False
    have "\<not> due now y" if "y \<in> set es" for y
      using le that False not_due_after by blast
    then have "filter (due now) es = []" by (simp add: filter_empty_conv)
    with False show ?thesis by simp
  qed
qed

lemma sorted_byTime_due_suffix:
  assumes s: "sorted_byTime es"
  shows "dropWhile (due now) es = filter (\<lambda>e. \<not> due now e) es"
proof -
  have t: "filter (due now) (takeWhile (due now) es) = takeWhile (due now) es"
    by (simp add: filter_id_conv) (meson set_takeWhileD)
  have "filter (due now) es =
      filter (due now) (takeWhile (due now) es) @ filter (due now) (dropWhile (due now) es)"
    by (metis filter_append takeWhile_dropWhile_id)
  then have d: "filter (due now) (dropWhile (due now) es) = []"
    using sorted_byTime_due_prefix [OF s, of now] t by simp
  have "filter (\<lambda>e. \<not> due now e) es =
      filter (\<lambda>e. \<not> due now e) (takeWhile (due now) es) @
      filter (\<lambda>e. \<not> due now e) (dropWhile (due now) es)"
    by (metis filter_append takeWhile_dropWhile_id)
  also have "filter (\<lambda>e. \<not> due now e) (takeWhile (due now) es) = []"
    by (simp add: filter_empty_conv) (meson set_takeWhileD)
  also have "filter (\<lambda>e. \<not> due now e) (dropWhile (due now) es) = dropWhile (due now) es"
    using d by (simp add: filter_empty_conv filter_id_conv)
  finally show ?thesis by simp
qed

lemma select_case_TimerC:
  "select_case c (TimerC now) =
     (c\<lparr>entries := map (fire now) (takeWhile (due now) (entries c)) @
                    dropWhile (due now) (entries c)\<rparr>,
      concat (map dispatch (takeWhile (due now) (entries c))), Break)"
  by (simp add: select_case_def run_due_scan)

lemma not_due_iff: "(\<not> due now e) = (After (Next e) now \<or> IsZero (Next e))"
  by (auto simp: due_def After_def)

text \<open>
  C2. When the timer fires at \<open>now\<close>, the loop walks the registry in its order. The
  entries before the first one that is not due (whose \<open>Next\<close> is after \<open>now\<close> or is
  the zero time) are each dispatched and fired: \<open>Prev\<close> becomes the old \<open>Next\<close> and
  \<open>Next\<close> becomes \<open>Schedule e now\<close>. The entries from that one on are neither
  dispatched nor changed. An entry with \<open>ArgLen\<close> from 0 to 4 is dispatched once, with
  the first \<open>ArgLen\<close> of the values identity, tag, task, params. In a sorted
  registry the entries walked are exactly the due ones.
\<close>

theorem timer_case_scan:
  "select_case c (TimerC now) =
     (c\<lparr>entries := map (fire now) (takeWhile (due now) (entries c)) @
                    dropWhile (due now) (entries c)\<rparr>,
      concat (map dispatch (takeWhile (due now) (entries c))), Break) \<and>
   (\<not> due now e) = (After (Next e) now \<or> IsZero (Next e)) \<and>
   (0 \<le> sint (ArgLen e) \<and> sint (ArgLen e) \<le> 4 \<longrightarrow>
      dispatch e = [Go_runWithRecovery e (take (nat (sint (ArgLen e))) (aux_values e))]) \<and>
   (sorted_byTime (entries c) \<longrightarrow>
      takeWhile (due now) (entries c) = filter (due now) (entries c) \<and>
      dropWhile (due now) (entries c) = filter (\<lambda>e. \<not> due now e) (entries c))"
  using select_case_TimerC [of c now] not_due_iff [of now e] dispatch_in_range [of e]
    sorted_byTime_due_prefix [of "entries c" now] sorted_byTime_due_suffix [of "entries c" now]
  by blast

theorem timer_case_scan_witness:
  "sorted_byTime (entries (cron_of True
      [(fixed_entry 3 7)\<lparr>ArgLen := 2, Tag := ''nightly''\<rparr>, fixed_entry 9 8, fixed_entry 0 9])) \<and>
   0 \<le> sint (ArgLen ((fixed_entry 3 7)\<lparr>ArgLen := 2, Tag := ''nightly''\<rparr>)) \<and>
   sint (ArgLen ((fixed_entry 3 7)\<lparr>ArgLen := 2, Tag := ''nightly''\<rparr>)) \<le> 4 \<and>
   fst (snd (select_case (cron_of True
      [(fixed_entry 3 7)\<lparr>ArgLen := 2, Tag := ''nightly''\<rparr>, fixed_entry 9 8, fixed_entry 0 9])
      (TimerC 6))) =
     [Go_runWithRecovery ((fixed_entry 3 7)\<lparr>ArgLen := 2, Tag := ''nightly''\<rparr>)
        [Int32 7, Str ''nightly'']] \<and>
   entries (fst (select_case (cron_of True
      [(fixed_entry 3 7)\<lparr>ArgLen := 2, Tag := ''nightly''\<rparr>, fixed_entry 9 8, fixed_entry 0 9])
      (TimerC 6))) =
     [(fixed_entry 3 7)\<lparr>ArgLen := 2, Tag := ''nightly'', Prev := 3\<rparr>, fixed_entry 9 8,
      fixed_entry 0 9]"
proof -
  let ?e = "(fixed_entry 3 7)\<lparr>ArgLen := 2, Tag := ''nightly''\<rparr>"
  let ?c = "cron_of True [?e, fixed_entry 9 8, fixed_entry 0 9]"
  have s: "sorted_byTime (entries ?c)"
    by (simp add: cron_of_def sorted_byTime_def Less_def IsZero_def Before_def fixed_entry_def)
  have a: "0 \<le> sint (ArgLen ?e) \<and> sint (ArgLen ?e) \<le> 4"
    by (simp add: fixed_entry_def)
  have d: "due 6 ?e" "\<not> due 6 (fixed_entry 9 8)"
    by (simp_all add: due_def IsZero_def fixed_entry_def)
  have f: "fire 6 ?e = (fixed_entry 3 7)\<lparr>ArgLen := 2, Tag := ''nightly'', Prev := 3\<rparr>"
    by (simp add: fire_def fixed_entry_def)
  have v: "take (nat (sint (ArgLen ?e))) (aux_values ?e) = [Int32 7, Str ''nightly'']"
    by (simp add: aux_values_def fixed_entry_def)
  have t: "takeWhile (due 6) (entries ?c) = [?e]" "dropWhile (due 6) (entries ?c) = [fixed_entry 9 8, fixed_entry 0 9]"
    using d by (simp_all add: cron_of_def)
  have e: "entries ?c = [?e, fixed_entry 9 8, fixed_entry 0 9]" by (simp add: cron_of_def)
  note th = timer_case_scan [of ?c 6 ?e]
  show ?thesis
    using th s a 
    unfolding t
    apply (simp only: fst_conv snd_conv list.map concat.simps append_Nil2 append_Cons append_Nil f v)
    apply (simp add: cron_of_def)
    done
qed

section \<open>One event at a time\<close>

lemma loop_pass_TimerC:
  "loop_pass c (TimerC now) =
     (c\<lparr>entries := sort_byTime (fst (run_due now (entries c)))\<rparr>, snd (run_due now (entries c)))"
  by (simp add: loop_pass_def select_case_def split: prod.splits)

lemma loop_pass_AddC:
  "loop_pass c (AddC e now) =
     (c\<lparr>id_cron := id_cron c + 1,
        entries := sort_byTime (entries c @ [e\<lparr>Next := Schedule e now, Id_entry := id_cron c\<rparr>])\<rparr>,
      [Appended (e\<lparr>Next := Schedule e now, Id_entry := id_cron c\<rparr>)])"
  by (simp add: loop_pass_def select_case_def nextId_def Let_def)

lemma loop_pass_SnapshotC: "loop_pass c SnapshotC = (c, [Reply (entrySnapshot c)])"
  by (simp add: loop_pass_def select_case_def)

lemma loop_pass_StopC: "loop_pass c StopC = (c, [])"
  by (simp add: loop_pass_def select_case_def)

lemma loop_pass_RemoveC:
  "loop_pass c (RemoveC i) =
     (if entries c = [] then (c, [])
      else (c\<lparr>entries := sort_byTime
               (if word_sle 0 i then filter (\<lambda>v. i \<noteq> Id_entry v) (entries c)
                else if i = - 1 then []
                else if i = - 2 then drop 1 (entries c)
                else if i = - 3 then take (length (entries c) - 1) (entries c)
                else entries c)\<rparr>, []))"
  by (auto simp: loop_pass_def select_case_def)

lemma Cron_Schedule_new_entry:
  "Cron_Schedule c s j ext =
     (case new_entry s j ext of
        Inl p \<Rightarrow> Inl p
      | Inr entry \<Rightarrow>
          if \<not> running c then
            Inr (c\<lparr>id_cron := id_cron c + 1,
                   entries := entries c @ [entry\<lparr>Id_entry := id_cron c\<rparr>]\<rparr>,
                 [Appended (entry\<lparr>Id_entry := id_cron c\<rparr>)])
          else Inr (c, [Send (Add_msg entry)]))"
  by (simp add: Cron_Schedule_def new_entry_def then_do_def nextId_def Let_def
      split: list.splits sum.splits)

lemma exec1_Schedule:
  "exec1 c (Call (Op_Schedule s j ext) now) =
     (case new_entry s j ext of
        Inl p \<Rightarrow> (c, [Panics p])
      | Inr entry \<Rightarrow>
          if \<not> running c then
            (c\<lparr>id_cron := id_cron c + 1,
               entries := entries c @ [entry\<lparr>Id_entry := id_cron c\<rparr>]\<rparr>,
             [Appended (entry\<lparr>Id_entry := id_cron c\<rparr>)])
          else
            (c\<lparr>id_cron := id_cron c + 1,
               entries := sort_byTime
                 (entries c @ [entry\<lparr>Next := Schedule entry now, Id_entry := id_cron c\<rparr>])\<rparr>,
             [Send (Add_msg entry),
              Appended (entry\<lparr>Next := Schedule entry now, Id_entry := id_cron c\<rparr>)]))"
  by (simp add: exec1_def call_def Cron_Schedule_new_entry deliver_def loop_pass_AddC
      split: sum.splits)

lemma exec1_Entries:
  "exec1 c (Call Op_Entries now) =
     (if running c then (c, [Send Snapshot_msg, Reply (entrySnapshot c)])
      else (c, [Result (entrySnapshot c)]))"
  by (simp add: exec1_def call_def Entries_def deliver_def loop_pass_SnapshotC)

lemma exec1_Start:
  "exec1 c (Call Op_Start now) =
     (if running c then (c, []) else (run_init (c\<lparr>running := True\<rparr>) now, [Go_run]))"
  by (simp add: exec1_def call_def Start_def deliver_def)

lemma exec1_Stop:
  "exec1 c (Call Op_Stop now) =
     (if running c then (c\<lparr>running := False\<rparr>, [Send Stop_msg]) else (c, []))"
  by (simp add: exec1_def call_def Stop_def deliver_def loop_pass_StopC)

lemma exec1_Remove:
  "exec1 c (Call (Op_Remove i) now) =
     (if running c then
        (fst (loop_pass c (RemoveC i)), [Send (Remove_msg i)])
      else if entries c = [] then (c, [])
      else (c\<lparr>entries := (if word_sle 0 i then filter (\<lambda>v. i \<noteq> Id_entry v) (entries c)
                             else [])\<rparr>, []))"
  by (simp add: exec1_def call_def Remove_def deliver_def loop_pass_RemoveC)

lemma exec1_RemoveAll:
  "exec1 c (Call Op_RemoveAll now) =
     (if running c then (fst (loop_pass c (RemoveC (- 1))), [Send (Remove_msg (- 1))])
      else (c\<lparr>entries := []\<rparr>, []))"
  by (simp add: exec1_def call_def RemoveAll_def deliver_def loop_pass_RemoveC)

lemma exec1_RemoveFirst:
  "exec1 c (Call Op_RemoveFirst now) =
     (if running c then (fst (loop_pass c (RemoveC (- 2))), [Send (Remove_msg (- 2))])
      else if entries c = [] then (c, [])
      else (c\<lparr>entries := drop 1 (entries c)\<rparr>, []))"
  by (simp add: exec1_def call_def RemoveFirst_def deliver_def loop_pass_RemoveC)

lemma exec1_RemoveLast:
  "exec1 c (Call Op_RemoveLast now) =
     (if running c then (fst (loop_pass c (RemoveC (- 3))), [Send (Remove_msg (- 3))])
      else if entries c = [] then (c, [])
      else (c\<lparr>entries := take (length (entries c) - 1) (entries c)\<rparr>, []))"
  by (simp add: exec1_def call_def RemoveLast_def deliver_def loop_pass_RemoveC)

lemma exec1_TimerFires:
  "exec1 c (TimerFires now) =
     (if running c then
        (c\<lparr>entries := sort_byTime (fst (run_due now (entries c)))\<rparr>,
         snd (run_due now (entries c)))
      else (c, []))"
  by (simp add: exec1_def loop_pass_TimerC)

lemmas exec1_simps = exec1_Schedule exec1_Entries exec1_Start exec1_Stop exec1_Remove
  exec1_RemoveAll exec1_RemoveFirst exec1_RemoveLast exec1_TimerFires

section \<open>What is spawned\<close>

lemma dispatch_label: "Go_runWithRecovery e args \<in> set (dispatch e') \<Longrightarrow> e' = e"
  by (simp add: dispatch_def split: if_splits)

lemma dispatch_only_spawns: "x \<in> set (dispatch e') \<Longrightarrow> \<exists>args. x = Go_runWithRecovery e' args"
  by (simp add: dispatch_def split: if_splits)

lemma spawn_run_due:
  assumes "Go_runWithRecovery e args \<in> set (snd (run_due now es))"
  shows "e \<in> set es \<and> due now e \<and> Go_runWithRecovery e args \<in> set (dispatch e)"
proof -
  from assms obtain e' where e': "e' \<in> set (takeWhile (due now) es)"
    and m: "Go_runWithRecovery e args \<in> set (dispatch e')"
    by (auto simp: run_due_scan)
  from m have "e' = e" by (rule dispatch_label)
  with e' m show ?thesis
    by (meson set_takeWhileD)
qed

lemma spawn_exec1:
  assumes "Go_runWithRecovery e args \<in> set (snd (exec1 c ev))"
  shows "e \<in> set (entries c) \<and> (\<exists>now. due now e) \<and>
    Go_runWithRecovery e args \<in> set (dispatch e)"
proof (cases ev)
  case (Call f now)
  with assms show ?thesis
    by (cases f) (simp_all add: exec1_simps split: sum.splits if_splits)
next
  case (TimerFires now)
  with assms have "Go_runWithRecovery e args \<in> set (snd (run_due now (entries c)))"
    by (simp add: exec1_TimerFires split: if_splits)
  then show ?thesis using spawn_run_due by blast
qed

lemma exec_Cons_fst: "fst (exec c (ev # evs)) = fst (exec (fst (exec1 c ev)) evs)"
  by (simp add: split_beta)

lemma exec_Cons_snd:
  "snd (exec c (ev # evs)) = snd (exec1 c ev) @ snd (exec (fst (exec1 c ev)) evs)"
  by (simp add: split_beta)

lemma exec_append_fst: "fst (exec c (evs @ evs')) = fst (exec (fst (exec c evs)) evs')"
  by (induction evs arbitrary: c) (simp_all add: split_beta)

lemma spawn_exec:
  "Go_runWithRecovery e args \<in> set (snd (exec c evs)) \<Longrightarrow>
     (\<exists>now. due now e) \<and> Go_runWithRecovery e args \<in> set (dispatch e)"
proof (induction evs arbitrary: c)
  case Nil
  then show ?case by simp
next
  case (Cons ev evs)
  then show ?case
    unfolding exec_Cons_snd using spawn_exec1 [of e args c ev] by auto
qed

text \<open>
  C10. An entry whose \<open>ArgLen\<close> is below 0 or above 4 matches no case of the switch:
  nothing is spawned for it, in no pass of any run of the engine, yet when it is due
  the pass still sets its \<open>Prev\<close> to the old \<open>Next\<close> and its \<open>Next\<close> to what the schedule
  answers, and goes on with the rest of the registry.
\<close>

theorem out_of_range_arity:
  "sint (ArgLen e) < 0 \<or> 4 < sint (ArgLen e) \<longrightarrow>
     dispatch e = [] \<and>
     (due now e \<longrightarrow>
        run_due now (e # es) = (fire now e # fst (run_due now es), snd (run_due now es)) \<and>
        Prev (fire now e) = Next e \<and> Next (fire now e) = Schedule e now \<and>
        ArgLen (fire now e) = ArgLen e) \<and>
     Go_runWithRecovery e args \<notin> set (snd (exec c evs))"
proof
  assume a: "sint (ArgLen e) < 0 \<or> 4 < sint (ArgLen e)"
  then have d: "dispatch e = []" by (rule dispatch_out_of_range)
  have "run_due now (e # es) = (fire now e # fst (run_due now es), snd (run_due now es))"
    if "due now e"
    using that d by (simp add: run_due_scan)
  moreover have "Prev (fire now e) = Next e \<and> Next (fire now e) = Schedule e now \<and>
        ArgLen (fire now e) = ArgLen e"
    by (simp add: fire_def)
  moreover have "Go_runWithRecovery e args \<notin> set (snd (exec c evs))"
    using spawn_exec [of e args c evs] d by auto
  ultimately show "dispatch e = [] \<and>
     (due now e \<longrightarrow>
        run_due now (e # es) = (fire now e # fst (run_due now es), snd (run_due now es)) \<and>
        Prev (fire now e) = Next e \<and> Next (fire now e) = Schedule e now \<and>
        ArgLen (fire now e) = ArgLen e) \<and>
     Go_runWithRecovery e args \<notin> set (snd (exec c evs))"
    using d by blast
qed

theorem out_of_range_arity_witness:
  "(sint (ArgLen ((fixed_entry 3 7)\<lparr>ArgLen := 5\<rparr>)) < 0 \<or>
      4 < sint (ArgLen ((fixed_entry 3 7)\<lparr>ArgLen := 5\<rparr>))) \<and>
   due 6 ((fixed_entry 3 7)\<lparr>ArgLen := 5\<rparr>) \<and>
   run_due 6 [(fixed_entry 3 7)\<lparr>ArgLen := 5\<rparr>, fixed_entry 9 8] =
     ([(fixed_entry 3 7)\<lparr>ArgLen := 5, Prev := 3\<rparr>, fixed_entry 9 8], []) \<and>
   snd (exec (cron_of True [(fixed_entry 3 7)\<lparr>ArgLen := 5\<rparr>, fixed_entry 9 8])
      [TimerFires 6, TimerFires 7]) = []"
proof -
  let ?e = "(fixed_entry 3 7)\<lparr>ArgLen := 5\<rparr>"
  have a: "sint (ArgLen ?e) < 0 \<or> 4 < sint (ArgLen ?e)"
    by (simp add: fixed_entry_def)
  have d: "due 6 ?e" "\<not> due 6 (fixed_entry 9 8)"
    by (simp_all add: due_def IsZero_def fixed_entry_def)
  have f: "fire 6 ?e = (fixed_entry 3 7)\<lparr>ArgLen := 5, Prev := 3\<rparr>"
    by (simp add: fire_def fixed_entry_def)
  have r: "run_due 6 [fixed_entry 9 8] = ([fixed_entry 9 8], [])"
    using d by (simp add: run_due_scan)
  note th = out_of_range_arity [of ?e 6 "[fixed_entry 9 8]" "[]" "cron_of True [?e, fixed_entry 9 8]" "[]"]
  have x: "run_due 6 [?e, fixed_entry 9 8] = ([(fixed_entry 3 7)\<lparr>ArgLen := 5, Prev := 3\<rparr>, fixed_entry 9 8], [])"
  proof -
    from th a d(1) have "run_due 6 (?e # [fixed_entry 9 8]) =
        (fire 6 ?e # fst (run_due 6 [fixed_entry 9 8]), snd (run_due 6 [fixed_entry 9 8]))"
      by blast
    then show ?thesis unfolding r f by (simp only: fst_conv snd_conv)
  qed
  let ?e' = "(fixed_entry 3 7)\<lparr>ArgLen := 5, Prev := 3\<rparr>"
  let ?c = "cron_of True [?e, fixed_entry 9 8]"
  let ?c' = "cron_of True [?e', fixed_entry 9 8]"
  have s: "sort_byTime [?e', fixed_entry 9 8] = [?e', fixed_entry 9 8]"
    by (simp add: sort_byTime_def Less_def IsZero_def Before_def fixed_entry_def)
  have x': "run_due 7 [?e', fixed_entry 9 8] = ([?e', fixed_entry 9 8], [])"
    by (simp add: After_def IsZero_def fixed_entry_def dispatch_def)
  have e1: "exec1 ?c (TimerFires 6) = (?c', [])"
    by (simp add: exec1_TimerFires cron_of_def x s del: run_due.simps)
  have e2: "exec1 ?c' (TimerFires 7) = (?c', [])"
    by (simp add: exec1_TimerFires cron_of_def x' s del: run_due.simps)
  have "snd (exec ?c [TimerFires 6, TimerFires 7]) = []"
    by (simp add: e1 e2)
  with x a d(1) show ?thesis by simp
qed

section \<open>Start, Stop, snapshots and recovery\<close>

lemma entries_update_same: "entries c = es \<Longrightarrow> c\<lparr>entries := es\<rparr> = c"
  by (cases c) simp

text \<open>
  C8. \<^verbatim>\<open>Start\<close> on a running engine does nothing: the engine is unchanged and no loop
  is launched. \<^verbatim>\<open>Stop\<close> on a stopped engine does nothing: the engine is unchanged
  and nothing is sent.
\<close>

theorem start_stop_noop:
  "(running c \<longrightarrow> Start c = (c, []) \<and> exec1 c (Call Op_Start now) = (c, [])) \<and>
   (\<not> running c \<longrightarrow> Stop c = (c, []) \<and> exec1 c (Call Op_Stop now) = (c, []))"
  by (simp add: Start_def Stop_def exec1_Start exec1_Stop)

theorem start_stop_noop_witness:
  "running (cron_of True [fixed_entry 3 0]) \<and>
   Start (cron_of True [fixed_entry 3 0]) = (cron_of True [fixed_entry 3 0], []) \<and>
   exec1 (cron_of True [fixed_entry 3 0]) (Call Op_Start 5) = (cron_of True [fixed_entry 3 0], []) \<and>
   \<not> running (cron_of False [fixed_entry 3 0]) \<and>
   Stop (cron_of False [fixed_entry 3 0]) = (cron_of False [fixed_entry 3 0], []) \<and>
   exec1 (cron_of False [fixed_entry 3 0]) (Call Op_Stop 5) = (cron_of False [fixed_entry 3 0], [])"
proof -
  have r: "running (cron_of True [fixed_entry 3 0])" "\<not> running (cron_of False [fixed_entry 3 0])"
    by (simp_all add: cron_of_def)
  show ?thesis
    using start_stop_noop [of "cron_of True [fixed_entry 3 0]" 5]
      start_stop_noop [of "cron_of False [fixed_entry 3 0]" 5] r
    by blast
qed

text \<open>
  C4. \<^verbatim>\<open>entrySnapshot\<close> copies \<open>Schedule\<close>, \<open>Next\<close>, \<open>Prev\<close>, \<open>Job\<close>, the identity,
  \<open>ArgLen\<close> and \<open>Tag\<close> of every entry into a new record, but not \<open>Task\<close> and
  \<open>Params\<close>: these are empty in every copy. For an entry with task \<open>backup\<close> and
  parameters \<open>--all\<close>, \<^verbatim>\<open>Entries\<close> answers an entry without them, while stopped and
  while running.
\<close>

theorem entrySnapshot_drops_Task_Params:
  "map Schedule (entrySnapshot c) = map Schedule (entries c) \<and>
   map Next (entrySnapshot c) = map Next (entries c) \<and>
   map Prev (entrySnapshot c) = map Prev (entries c) \<and>
   map Job (entrySnapshot c) = map Job (entries c) \<and>
   map Id_entry (entrySnapshot c) = map Id_entry (entries c) \<and>
   map ArgLen (entrySnapshot c) = map ArgLen (entries c) \<and>
   map Tag (entrySnapshot c) = map Tag (entries c) \<and>
   map Task (entrySnapshot c) = replicate (length (entries c)) [] \<and>
   map Params (entrySnapshot c) = replicate (length (entries c)) [] \<and>
   Task ((fixed_entry 3 0)\<lparr>Task := ''backup'', Params := ''--all''\<rparr>) = ''backup'' \<and>
   Params ((fixed_entry 3 0)\<lparr>Task := ''backup'', Params := ''--all''\<rparr>) = ''--all'' \<and>
   entrySnapshot (cron_of False [(fixed_entry 3 0)\<lparr>Task := ''backup'', Params := ''--all''\<rparr>])
     = [fixed_entry 3 0] \<and>
   Task (fixed_entry 3 0) = [] \<and> Params (fixed_entry 3 0) = [] \<and>
   exec1 (cron_of False [(fixed_entry 3 0)\<lparr>Task := ''backup'', Params := ''--all''\<rparr>])
       (Call Op_Entries 5)
     = (cron_of False [(fixed_entry 3 0)\<lparr>Task := ''backup'', Params := ''--all''\<rparr>],
        [Result [fixed_entry 3 0]]) \<and>
   exec1 (cron_of True [(fixed_entry 3 0)\<lparr>Task := ''backup'', Params := ''--all''\<rparr>])
       (Call Op_Entries 5)
     = (cron_of True [(fixed_entry 3 0)\<lparr>Task := ''backup'', Params := ''--all''\<rparr>],
        [Send Snapshot_msg, Reply [fixed_entry 3 0]])"
proof -
  have g: "map Task (entrySnapshot c) = replicate (length (entries c)) []"
    "map Params (entrySnapshot c) = replicate (length (entries c)) []"
    by (simp_all add: entrySnapshot_def comp_def map_replicate_const)
  have s: "entrySnapshot (cron_of b [(fixed_entry 3 0)\<lparr>Task := ''backup'', Params := ''--all''\<rparr>])
     = [fixed_entry 3 0]" for b
    by (simp add: entrySnapshot_def cron_of_def fixed_entry_def)
  have r: "running (cron_of True es)" "\<not> running (cron_of False es)" for es
    by (simp_all add: cron_of_def)
  show ?thesis
    unfolding exec1_Entries s g
    by (simp add: r) (simp add: entrySnapshot_def comp_def fixed_entry_def)
qed

lemma logf_Some: "ErrorLog c = Some l \<Longrightarrow> logf c line w = w(Logger l := w (Logger l) @ [line])"
  by (simp add: logf_def)

lemma logf_None: "ErrorLog c = None \<Longrightarrow> logf c line w = w(Std := w Std @ [line])"
  by (simp add: logf_def)

lemma runWithRecovery_Panicking:
  "j args = Panicking p \<Longrightarrow>
     runWithRecovery c j args stack w =
       Inr (logf c (''cron: panic running job: '' @ render p @ [CHR 0x0A] @ take 65536 stack) w)"
  by (simp add: runWithRecovery_def recover_def report_def)

lemma runWithRecovery_Returns:
  "j args = Returns \<Longrightarrow> runWithRecovery c j args stack w = Inr w"
  by (simp add: runWithRecovery_def recover_def)

lemma runWithRecovery_not_isl: "\<not> isl (runWithRecovery c j args stack w)"
  by (cases "j args") (simp_all add: runWithRecovery_Panicking runWithRecovery_Returns)

lemma run_due_Job_update:
  "fst (run_due now (map (\<lambda>e. e\<lparr>Job := g (Job e)\<rparr>) es)) =
     map (\<lambda>e. e\<lparr>Job := g (Job e)\<rparr>) (fst (run_due now es))"
  by (induction es) (simp_all add: split_beta)

text \<open>
  C6. Whatever the job does, \<^verbatim>\<open>runWithRecovery\<close> returns: no panic leaves it. When
  the job panics with \<open>p\<close>, one line is printed, made of the text
  \<open>cron: panic running job: \<close>, the panic value, a newline and the stack trace (at
  most 64 KiB of it); it goes to the logger \<^verbatim>\<open>ErrorLog\<close> points to, or to the
  standard logger when \<^verbatim>\<open>ErrorLog\<close> is \<^verbatim>\<open>nil\<close>. The loop never looks at what a job
  does: a timer pass gives the same registry whatever the jobs are.
\<close>

theorem runWithRecovery_recovers:
  "(j args = Panicking p \<longrightarrow>
      runWithRecovery c j args stack w =
        Inr (logf c (''cron: panic running job: '' @ render p @ [CHR 0x0A] @ take 65536 stack) w)) \<and>
   (j args = Returns \<longrightarrow> runWithRecovery c j args stack w = Inr w) \<and>
   \<not> isl (runWithRecovery c j args stack w) \<and>
   (ErrorLog c = Some l \<longrightarrow> logf c line w = w(Logger l := w (Logger l) @ [line])) \<and>
   (ErrorLog c = None \<longrightarrow> logf c line w = w(Std := w Std @ [line])) \<and>
   fst (run_due now (map (\<lambda>e. e\<lparr>Job := g (Job e)\<rparr>) es)) =
     map (\<lambda>e. e\<lparr>Job := g (Job e)\<rparr>) (fst (run_due now es))"
  using runWithRecovery_Panicking [of j args p c stack w] runWithRecovery_Returns [of j args c stack w]
    runWithRecovery_not_isl [of c j args stack w] logf_Some [of c l line w] logf_None [of c line w]
    run_due_Job_update [of now g es]
  by blast

theorem runWithRecovery_recovers_witness:
  "job_boom [Int32 7] = Panicking (Raised ''boom'') \<and>
   ErrorLog (cron_of True []) = None \<and>
   runWithRecovery (cron_of True []) job_boom [Int32 7] ''goroutine 9 [running]'' (\<lambda>s. []) =
     Inr ((\<lambda>s. [])(Std := [''cron: panic running job: boom'' @ [CHR 0x0A] @ ''goroutine 9 [running]''])) \<and>
   job_ok [] = Returns \<and>
   ErrorLog ((cron_of True [])\<lparr>ErrorLog := Some 2\<rparr>) = Some 2 \<and>
   runWithRecovery ((cron_of True [])\<lparr>ErrorLog := Some 2\<rparr>) job_boom [] ''trace'' (\<lambda>s. []) =
     Inr ((\<lambda>s. [])(Logger 2 := [''cron: panic running job: boom'' @ [CHR 0x0A] @ ''trace'']))"
proof -
  have a: "job_boom args = Panicking (Raised ''boom'')" for args by (simp add: job_boom_def)
  have b: "ErrorLog (cron_of True []) = None" "ErrorLog ((cron_of True [])\<lparr>ErrorLog := Some 2\<rparr>) = Some 2"
    by (simp_all add: cron_of_def)
  have k: "job_ok [] = Returns" by (simp add: job_ok_def)
  note t1 = runWithRecovery_recovers [of job_boom "[Int32 7]" "Raised ''boom''" "cron_of True []"
      "''goroutine 9 [running]''" "\<lambda>s. []" 0 
      "''cron: panic running job: '' @ render (Raised ''boom'') @ [CHR 0x0A] @ take 65536 ''goroutine 9 [running]''"]
  note t2 = runWithRecovery_recovers [of job_boom "[]" "Raised ''boom''" "(cron_of True [])\<lparr>ErrorLog := Some 2\<rparr>"
      "''trace''" "\<lambda>s. []" 2 
      "''cron: panic running job: '' @ render (Raised ''boom'') @ [CHR 0x0A] @ take 65536 ''trace''"]
  from t1 a b have 1: "runWithRecovery (cron_of True []) job_boom [Int32 7] ''goroutine 9 [running]'' (\<lambda>s. []) =
     Inr ((\<lambda>s. [])(Std := [''cron: panic running job: boom'' @ [CHR 0x0A] @ ''goroutine 9 [running]'']))"
    by (simp add: render_def)
  from t2 a b have 2: "runWithRecovery ((cron_of True [])\<lparr>ErrorLog := Some 2\<rparr>) job_boom [] ''trace'' (\<lambda>s. []) =
     Inr ((\<lambda>s. [])(Logger 2 := [''cron: panic running job: boom'' @ [CHR 0x0A] @ ''trace'']))"
    by (simp add: render_def)
  from 1 2 a b k show ?thesis by simp
qed

section \<open>Remove\<close>

lemma Remove_stopped:
  "\<not> running c \<Longrightarrow> word_sle 0 i \<Longrightarrow>
     Remove c i = (c\<lparr>entries := filter (\<lambda>v. i \<noteq> Id_entry v) (entries c)\<rparr>, [])"
  by (cases "entries c = []") (simp_all add: Remove_def entries_update_same Let_def)

lemma Remove_running: "running c \<Longrightarrow> Remove c i = (c, [Send (Remove_msg i)])"
  by (simp add: Remove_def)

lemma select_case_RemoveC:
  "word_sle 0 i \<Longrightarrow>
     select_case c (RemoveC i) =
       (c\<lparr>entries := filter (\<lambda>v. i \<noteq> Id_entry v) (entries c)\<rparr>, [],
        if entries c = [] then Continue else Break)"
  by (cases "entries c = []") (simp_all add: select_case_def entries_update_same)

lemma loop_pass_RemoveC_mset:
  "word_sle 0 i \<Longrightarrow>
     mset (entries (fst (loop_pass c (RemoveC i)))) =
       mset (filter (\<lambda>v. i \<noteq> Id_entry v) (entries c))"
  by (simp add: loop_pass_RemoveC mset_sort_byTime)

lemma filter_absent: "\<forall>v\<in>set es. i \<noteq> Id_entry v \<Longrightarrow> filter (\<lambda>v. i \<noteq> Id_entry v) es = es"
  by (simp add: filter_id_conv)

text \<open>
  C3 (as amended). For every identity \<open>i \<ge> 0\<close>: on a stopped engine \<^verbatim>\<open>Remove\<close>
  takes out exactly the entries whose identity is \<open>i\<close>; on a running engine it sends
  \<open>i\<close> to the loop, whose remove case takes out exactly those entries (and the
  registry the loop then sorts holds the same entries). Every other entry stays as
  it is. When no entry has identity \<open>i\<close>, and so when the registry is empty, the
  engine is unchanged on both paths.
\<close>

theorem remove_by_identity:
  assumes "word_sle 0 i"
  shows
  "(\<not> running c \<longrightarrow>
      Remove c i = (c\<lparr>entries := filter (\<lambda>v. i \<noteq> Id_entry v) (entries c)\<rparr>, [])) \<and>
   (running c \<longrightarrow> Remove c i = (c, [Send (Remove_msg i)])) \<and>
   select_case c (RemoveC i) =
     (c\<lparr>entries := filter (\<lambda>v. i \<noteq> Id_entry v) (entries c)\<rparr>, [],
      if entries c = [] then Continue else Break) \<and>
   mset (entries (fst (loop_pass c (RemoveC i)))) =
     mset (filter (\<lambda>v. i \<noteq> Id_entry v) (entries c)) \<and>
   ((\<forall>v\<in>set (entries c). i \<noteq> Id_entry v) \<longrightarrow>
      (\<not> running c \<longrightarrow> fst (Remove c i) = c) \<and> fst (select_case c (RemoveC i)) = c)"
proof -
  have "fst (select_case c (RemoveC i)) = c" "\<not> running c \<longrightarrow> fst (Remove c i) = c"
    if "\<forall>v\<in>set (entries c). i \<noteq> Id_entry v"
  proof -
    have f: "filter (\<lambda>v. i \<noteq> Id_entry v) (entries c) = entries c"
      using that by (rule filter_absent)
    show "fst (select_case c (RemoveC i)) = c"
      unfolding select_case_RemoveC [OF assms] f fst_conv
      by (rule entries_update_same [OF refl])
    show "\<not> running c \<longrightarrow> fst (Remove c i) = c"
    proof
      assume "\<not> running c"
      then show "fst (Remove c i) = c"
        unfolding Remove_stopped [OF \<open>\<not> running c\<close> assms] f fst_conv
        by (simp only: entries_update_same [OF refl])
    qed
  qed
  then show ?thesis
    using Remove_stopped [of c i] Remove_running [of c i] select_case_RemoveC [of i c]
      loop_pass_RemoveC_mset [of i c] assms
    by blast
qed

theorem remove_by_identity_witness:
  "word_sle 0 (8 :: int32) \<and>
   \<not> running (cron_of False [fixed_entry 3 7, fixed_entry 9 8]) \<and>
   Remove (cron_of False [fixed_entry 3 7, fixed_entry 9 8]) 8 =
     ((cron_of False [fixed_entry 3 7, fixed_entry 9 8])\<lparr>entries := [fixed_entry 3 7]\<rparr>, []) \<and>
   running (cron_of True [fixed_entry 3 7, fixed_entry 9 8]) \<and>
   Remove (cron_of True [fixed_entry 3 7, fixed_entry 9 8]) 8 =
     (cron_of True [fixed_entry 3 7, fixed_entry 9 8], [Send (Remove_msg 8)]) \<and>
   select_case (cron_of True [fixed_entry 3 7, fixed_entry 9 8]) (RemoveC 8) =
     ((cron_of True [fixed_entry 3 7, fixed_entry 9 8])\<lparr>entries := [fixed_entry 3 7]\<rparr>, [], Break) \<and>
   word_sle 0 (5 :: int32) \<and>
   list_all (\<lambda>v. 5 \<noteq> Id_entry v) (entries (cron_of False [fixed_entry 3 7, fixed_entry 9 8])) \<and>
   fst (Remove (cron_of False [fixed_entry 3 7, fixed_entry 9 8]) 5) =
     cron_of False [fixed_entry 3 7, fixed_entry 9 8] \<and>
   fst (select_case (cron_of True [fixed_entry 3 7, fixed_entry 9 8]) (RemoveC 5)) =
     cron_of True [fixed_entry 3 7, fixed_entry 9 8]"
proof -
  let ?es = "[fixed_entry 3 7, fixed_entry 9 8]"
  have w: "word_sle 0 (8 :: int32)" "word_sle 0 (5 :: int32)"
    by (simp_all add: word_sle_eq)
  have r: "running (cron_of True ?es)" "\<not> running (cron_of False ?es)"
    by (simp_all add: cron_of_def)
  have e: "entries (cron_of b ?es) = ?es" for b by (simp add: cron_of_def)
  have f: "filter (\<lambda>v. 8 \<noteq> Id_entry v) ?es = [fixed_entry 3 7]"
    by (simp add: fixed_entry_def)
  have a: "\<forall>v\<in>set (entries (cron_of b ?es)). 5 \<noteq> Id_entry v" for b
    by (simp add: cron_of_def fixed_entry_def)
  have 1: "Remove (cron_of False ?es) 8 = ((cron_of False ?es)\<lparr>entries := [fixed_entry 3 7]\<rparr>, [])"
    using remove_by_identity [OF w(1), of "cron_of False ?es"] r(2) unfolding e f by blast
  have 2: "Remove (cron_of True ?es) 8 = (cron_of True ?es, [Send (Remove_msg 8)])"
    using remove_by_identity [OF w(1), of "cron_of True ?es"] r(1) by blast
  have 3: "select_case (cron_of True ?es) (RemoveC 8) =
     ((cron_of True ?es)\<lparr>entries := [fixed_entry 3 7]\<rparr>, [], Break)"
    using remove_by_identity [OF w(1), of "cron_of True ?es"] unfolding e f by simp
  have 4: "fst (Remove (cron_of False ?es) 5) = cron_of False ?es"
    using remove_by_identity [OF w(2), of "cron_of False ?es"] r(2) a [of False] by blast
  have 5: "fst (select_case (cron_of True ?es) (RemoveC 5)) = cron_of True ?es"
    using remove_by_identity [OF w(2), of "cron_of True ?es"] a [of True] by blast
  have 6: "list_all (\<lambda>v. 5 \<noteq> Id_entry v) (entries (cron_of False ?es))"
    using a [of False] by (simp only: list_all_iff)
  from w r 1 2 3 4 5 6 show ?thesis by blast
qed

text \<open>
  C3 as stated fails for negative identities: on a running engine \<^verbatim>\<open>Remove(-1)\<close> is
  the message of \<^verbatim>\<open>RemoveAll\<close>. No entry has identity \<open>-1\<close>, and the registry is
  emptied.
\<close>

theorem remove_negative_counterexample:
  "Id_entry (fixed_entry 3 0) \<noteq> - 1 \<and>
   running (cron_of True [fixed_entry 3 0]) \<and>
   entries (cron_of True [fixed_entry 3 0]) = [fixed_entry 3 0] \<and>
   Remove (cron_of True [fixed_entry 3 0]) (- 1) =
     (cron_of True [fixed_entry 3 0], [Send (Remove_msg (- 1))]) \<and>
   entries (fst (select_case (cron_of True [fixed_entry 3 0]) (RemoveC (- 1)))) = [] \<and>
   entries (fst (exec1 (cron_of True [fixed_entry 3 0]) (Call (Op_Remove (- 1)) 9))) = []"
proof -
  have n: "\<not> word_sle 0 (- 1 :: int32)" by (simp add: word_sle_eq)
  have r: "running (cron_of True [fixed_entry 3 0])"
    and e: "entries (cron_of True [fixed_entry 3 0]) = [fixed_entry 3 0]"
    by (simp_all add: cron_of_def)
  have i: "Id_entry (fixed_entry 3 0) \<noteq> - 1" by (simp add: fixed_entry_def)
  have 1: "Remove (cron_of True [fixed_entry 3 0]) (- 1) =
     (cron_of True [fixed_entry 3 0], [Send (Remove_msg (- 1))])"
    using r by (simp add: Remove_def)
  have 2: "entries (fst (select_case (cron_of True [fixed_entry 3 0]) (RemoveC (- 1)))) = []"
    by (simp add: select_case_def n e)
  have 3: "entries (fst (loop_pass (cron_of True [fixed_entry 3 0]) (RemoveC (- 1)))) = []"
    by (simp add: loop_pass_RemoveC n e sort_byTime_def)
  have 4: "entries (fst (exec1 (cron_of True [fixed_entry 3 0]) (Call (Op_Remove (- 1)) 9))) = []"
    using r 3 by (simp add: exec1_Remove)
  from i r e 1 2 4 show ?thesis by blast
qed

section \<open>Identities\<close>

lemma assigned_ids_append: "assigned_ids (xs @ ys) = assigned_ids xs @ assigned_ids ys"
  by (simp add: assigned_ids_def)

lemma assigned_ids_Nil: "assigned_ids [] = []"
  by (simp add: assigned_ids_def)

lemma assigned_ids_dispatch: "assigned_ids (dispatch e) = []"
  by (simp add: assigned_ids_def dispatch_def)

lemma assigned_ids_run_due: "assigned_ids (snd (run_due now es)) = []"
  by (induction es)
    (simp_all add: split_beta assigned_ids_append assigned_ids_dispatch assigned_ids_Nil)

lemma id_cron_loop_pass_RemoveC: "id_cron (fst (loop_pass c (RemoveC i))) = id_cron c"
  by (simp add: loop_pass_RemoveC)

lemma step_ids:
  "(assigned_ids (snd (exec1 c ev)) = [] \<and> id_cron (fst (exec1 c ev)) = id_cron c) \<or>
   (assigned_ids (snd (exec1 c ev)) = [id_cron c] \<and>
    id_cron (fst (exec1 c ev)) = id_cron c + 1)"
proof (cases ev)
  case (Call f now)
  show ?thesis
  proof (cases f)
    case (Op_Schedule s j ext)
    with Call show ?thesis
      by (cases "new_entry s j ext") (simp_all add: exec1_Schedule assigned_ids_def)
  next
    case Op_Start
    with Call show ?thesis by (simp add: exec1_Start assigned_ids_def run_init_def)
  qed (simp_all add: Call exec1_simps assigned_ids_def id_cron_loop_pass_RemoveC)
next
  case (TimerFires now)
  then show ?thesis by (simp add: exec1_TimerFires assigned_ids_run_due assigned_ids_Nil)
qed

lemma exec_ids_ex:
  "\<exists>n. assigned_ids (snd (exec c evs)) = map (\<lambda>k. id_cron c + word_of_nat k) [0..<n] \<and>
       id_cron (fst (exec c evs)) = id_cron c + word_of_nat n"
proof (induction evs arbitrary: c)
  case Nil
  show ?case by (simp add: assigned_ids_Nil)
next
  case (Cons ev evs)
  let ?c1 = "fst (exec1 c ev)"
  from Cons.IH [of ?c1] obtain n
    where ih: "assigned_ids (snd (exec ?c1 evs)) = map (\<lambda>k. id_cron ?c1 + word_of_nat k) [0..<n]"
      and ih2: "id_cron (fst (exec ?c1 evs)) = id_cron ?c1 + word_of_nat n"
    by blast
  have s: "assigned_ids (snd (exec c (ev # evs))) =
      assigned_ids (snd (exec1 c ev)) @ assigned_ids (snd (exec ?c1 evs))"
    by (simp only: exec_Cons_snd assigned_ids_append)
  from step_ids [of c ev] show ?case
  proof
    assume a: "assigned_ids (snd (exec1 c ev)) = [] \<and> id_cron ?c1 = id_cron c"
    with ih ih2 s have
      "assigned_ids (snd (exec c (ev # evs))) = map (\<lambda>k. id_cron c + word_of_nat k) [0..<n] \<and>
       id_cron (fst (exec c (ev # evs))) = id_cron c + word_of_nat n"
      by (simp add: exec_Cons_fst del: exec.simps)
    then show ?thesis by blast
  next
    assume a: "assigned_ids (snd (exec1 c ev)) = [id_cron c] \<and> id_cron ?c1 = id_cron c + 1"
    have "id_cron c # map (\<lambda>k. id_cron c + 1 + word_of_nat k) [0..<n] =
        map (\<lambda>k. id_cron c + word_of_nat k) [0..<Suc n]"
      by (simp add: map_upt_Suc add.assoc del: upt_Suc)
    with a ih ih2 s have
      "assigned_ids (snd (exec c (ev # evs))) = map (\<lambda>k. id_cron c + word_of_nat k) [0..<Suc n] \<and>
       id_cron (fst (exec c (ev # evs))) = id_cron c + word_of_nat (Suc n)"
      by (simp add: exec_Cons_fst add.assoc del: exec.simps upt_Suc)
    then show ?thesis by blast
  qed
qed

lemma exec_ids:
  "assigned_ids (snd (exec c evs)) =
     map (\<lambda>k. id_cron c + word_of_nat k) [0..<length (assigned_ids (snd (exec c evs)))] \<and>
   id_cron (fst (exec c evs)) =
     id_cron c + word_of_nat (length (assigned_ids (snd (exec c evs))))"
proof -
  from exec_ids_ex [of c evs] obtain n
    where a: "assigned_ids (snd (exec c evs)) = map (\<lambda>k. id_cron c + word_of_nat k) [0..<n]"
      and b: "id_cron (fst (exec c evs)) = id_cron c + word_of_nat n"
    by blast
  from a have "length (assigned_ids (snd (exec c evs))) = n" by simp
  with a b show ?thesis by simp
qed

lemma sint_word_of_nat:
  assumes "k < 2 ^ 31"
  shows "sint (word_of_nat k :: int32) = int k"
proof -
  have "sint (word_of_nat k :: int32) = signed_take_bit 31 (int k)"
    using sint_sbintrunc' [where ?'a = 32, of "int k"] by simp
  also have "\<dots> = int k"
    using assms by (intro signed_take_bit_int_eq_self) simp_all
  finally show ?thesis by simp
qed

lemma unat_word_of_nat:
  "k < 2 ^ 32 \<Longrightarrow> unat (word_of_nat k :: int32) = k"
  by (simp add: unat_of_nat)

lemma sorted_ids:
  assumes "n \<le> 2 ^ 31"
  shows "sorted_wrt word_sless (map (\<lambda>k. word_of_nat k :: int32) [0..<n])"
proof -
  have "word_sless (word_of_nat i :: int32) (word_of_nat j)" if "i < j" "j < n" for i j
    using that assms by (simp add: word_sless_alt sint_word_of_nat)
  then show ?thesis
    by (simp add: sorted_wrt_iff_nth_less)
qed

lemma distinct_ids:
  assumes "n \<le> 2 ^ 32"
  shows "distinct (map (\<lambda>k. word_of_nat k :: int32) [0..<n])"
proof -
  have "inj_on (\<lambda>k. word_of_nat k :: int32) {0..<n}"
  proof (rule inj_onI)
    fix x y assume "x \<in> {0..<n}" "y \<in> {0..<n}" "(word_of_nat x :: int32) = word_of_nat y"
    then have "unat (word_of_nat x :: int32) = unat (word_of_nat y :: int32)" "x < 2 ^ 32" "y < 2 ^ 32"
      using assms by auto
    then show "x = y" by (simp add: unat_word_of_nat)
  qed
  then show ?thesis by (simp add: distinct_map)
qed

lemma NewWithLocation_id: "id_cron (NewWithLocation loc) = 0"
  by (simp add: NewWithLocation_def)

text \<open>
  C9 (as amended). In every run of a new engine, whichever way the entries are
  registered, the identities given out are \<open>0, 1, 2, \<dots>\<close> in this order, counted in
  32 bits, and the counter stands at their number. So the identities increase
  strictly through the first \<open>2^31\<close> registrations and are pairwise distinct through
  the first \<open>2^32\<close>.
\<close>

theorem identities_count_up:
  "assigned_ids (snd (exec (NewWithLocation loc) evs)) =
     map word_of_nat [0..<length (assigned_ids (snd (exec (NewWithLocation loc) evs)))] \<and>
   id_cron (fst (exec (NewWithLocation loc) evs)) =
     word_of_nat (length (assigned_ids (snd (exec (NewWithLocation loc) evs)))) \<and>
   (length (assigned_ids (snd (exec (NewWithLocation loc) evs))) \<le> 2 ^ 31 \<longrightarrow>
      sorted_wrt word_sless (assigned_ids (snd (exec (NewWithLocation loc) evs)))) \<and>
   (length (assigned_ids (snd (exec (NewWithLocation loc) evs))) \<le> 2 ^ 32 \<longrightarrow>
      distinct (assigned_ids (snd (exec (NewWithLocation loc) evs))))"
proof -
  let ?ids = "assigned_ids (snd (exec (NewWithLocation loc) evs))"
  have a: "?ids = map word_of_nat [0..<length ?ids]"
    and b: "id_cron (fst (exec (NewWithLocation loc) evs)) = word_of_nat (length ?ids)"
    using exec_ids [of "NewWithLocation loc" evs] by (simp_all add: NewWithLocation_id)
  have "sorted_wrt word_sless ?ids" if "length ?ids \<le> 2 ^ 31"
    using sorted_ids [OF that] a by simp
  moreover have "distinct ?ids" if "length ?ids \<le> 2 ^ 32"
    using distinct_ids [OF that] a by simp
  ultimately show ?thesis using a b by blast
qed

lemma new_entry_plain:
  "new_entry s j [Slice []] =
     Inr \<lparr>Schedule = s, Next = 0, Prev = 0, Job = j, Id_entry = 0, ArgLen = 0, Tag = [],
          Task = [], Params = []\<rparr>"
  by (simp add: new_entry_def as_slice_def then_do_def ext_fields_def)

lemma ids_registration:
  "assigned_ids (snd (exec1 c (Call (Op_Schedule s j [Slice []]) now))) = [id_cron c]"
  by (simp add: exec1_Schedule new_entry_plain assigned_ids_def)

lemma length_ids_registrations:
  "length (assigned_ids (snd (exec c (registrations n)))) = n"
proof (induction n arbitrary: c)
  case 0
  show ?case by (simp add: registrations_def assigned_ids_Nil)
next
  case (Suc n)
  have "registrations (Suc n) =
      Call (Op_Schedule (\<lambda>after. after + 60) job_ok [Slice []]) 0 # registrations n"
    by (simp add: registrations_def)
  then show ?case
    using Suc.IH by (simp add: exec_Cons_snd assigned_ids_append ids_registration del: exec.simps)
qed

lemma ids_of_registrations_nth:
  assumes "k < n"
  shows "ids_of_registrations n ! k = word_of_nat k"
proof -
  have "ids_of_registrations n = map word_of_nat [0..<n]"
    using exec_ids [of "NewWithLocation ''UTC''" "registrations n"]
    by (simp add: ids_of_registrations_def length_ids_registrations NewWithLocation_id)
  with assms show ?thesis by simp
qed

theorem identities_count_up_witness:
  "assigned_ids (snd (exec (NewWithLocation ''UTC'')
      [Call (Op_Schedule (\<lambda>after. after + 60) job_ok [Slice []]) 0, Call Op_Start 1,
       Call (Op_Schedule (\<lambda>after. after + 60) job_ok [Slice []]) 2])) = [0, 1] \<and>
   length [0, 1 :: int32] \<le> 2 ^ 31 \<and> length [0, 1 :: int32] \<le> 2 ^ 32 \<and>
   sorted_wrt word_sless [0, 1 :: int32] \<and> distinct [0, 1 :: int32] \<and>
   id_cron (fst (exec (NewWithLocation ''UTC'')
      [Call (Op_Schedule (\<lambda>after. after + 60) job_ok [Slice []]) 0, Call Op_Start 1,
       Call (Op_Schedule (\<lambda>after. after + 60) job_ok [Slice []]) 2])) = 2"
proof -
  let ?r = "\<lambda>t. Call (Op_Schedule (\<lambda>after. after + 60) job_ok [Slice []]) t"
  let ?evs = "[?r 0, Call Op_Start 1, ?r 2]"
  let ?c = "NewWithLocation ''UTC''"
  have s: "assigned_ids (snd (exec1 c (Call Op_Start t))) = []" for c t
    by (simp add: exec1_Start assigned_ids_def)
  have i: "assigned_ids (snd (exec ?c ?evs)) = [0, 1]"
    by (simp add: exec_Cons_snd exec_Cons_fst assigned_ids_append ids_registration s
        exec1_Schedule new_entry_plain exec1_Start run_init_def NewWithLocation_def
        assigned_ids_def del: exec.simps(2))
  have l: "length [0, 1 :: int32] \<le> 2 ^ 31" "length [0, 1 :: int32] \<le> 2 ^ 32"
    by simp_all
  show ?thesis
    using identities_count_up [of "''UTC''" ?evs] l unfolding i
    by simp
qed

text \<open>
  C9 as stated fails when the 32-bit counter wraps: registration number \<open>2^31\<close> gets
  the identity \<open>-2^31\<close>, below the one before it, and registration number \<open>2^32\<close>
  gets the identity \<open>0\<close> again.
\<close>

theorem identities_wrap_counterexample:
  "ids_of_registrations 4294967297 ! 0 = 0 \<and>
   ids_of_registrations 4294967297 ! 4294967296 = 0 \<and>
   ids_of_registrations 4294967297 ! 2147483647 = 2147483647 \<and>
   ids_of_registrations 4294967297 ! 2147483648 = - 2147483648 \<and>
   word_sless (ids_of_registrations 4294967297 ! 2147483648)
     (ids_of_registrations 4294967297 ! 2147483647)"
proof -
  have 0: "ids_of_registrations 4294967297 ! 0 = 0"
    using ids_of_registrations_nth [of 0 4294967297] by simp
  have 1: "ids_of_registrations 4294967297 ! 4294967296 = 0"
    using ids_of_registrations_nth [of 4294967296 4294967297] by simp
  have 2: "ids_of_registrations 4294967297 ! 2147483647 = 2147483647"
    using ids_of_registrations_nth [of 2147483647 4294967297] by simp
  have 3: "ids_of_registrations 4294967297 ! 2147483648 = - 2147483648"
    using ids_of_registrations_nth [of 2147483648 4294967297] by simp
  have 4: "word_sless (- 2147483648 :: int32) 2147483647"
    by (simp add: word_sless_alt)
  show ?thesis unfolding 0 1 2 3 using 4 by simp
qed

section \<open>Schedules that never fire\<close>

lemma ext_fields_keeps:
  "ext_fields e0 inner = Inr entry \<Longrightarrow>
     Schedule entry = Schedule e0 \<and> Next entry = Next e0 \<and> Prev entry = Prev e0 \<and>
     Job entry = Job e0 \<and> Id_entry entry = Id_entry e0"
  unfolding ext_fields_def then_do_def
  by (auto split: if_splits sum.splits)

lemma new_entry_fields:
  assumes "new_entry s j ext = Inr entry"
  shows "Schedule entry = s \<and> Next entry = 0 \<and> Prev entry = 0 \<and> Job entry = j"
proof -
  from assms obtain a rest inner where "ext = a # rest" "as_slice a = Inr inner"
    and e: "ext_fields \<lparr>Schedule = s, Next = 0, Prev = 0, Job = j, Id_entry = 0,
                          ArgLen = 0, Tag = [], Task = [], Params = []\<rparr> inner = Inr entry"
    by (auto simp: new_entry_def then_do_def split: list.splits sum.splits)
  from ext_fields_keeps [OF e] show ?thesis by simp
qed

lemma never_is_zero_subset:
  "never_is_zero es \<Longrightarrow> set es' \<subseteq> set es \<Longrightarrow> never_is_zero es'"
  by (auto simp: never_is_zero_def)

lemma never_is_zero_sort: "never_is_zero (sort_byTime es) = never_is_zero es"
  by (simp add: never_is_zero_def set_sort_byTime)

lemma never_is_zero_append:
  "never_is_zero (es @ [e]) = (never_is_zero es \<and> (never_fires (Schedule e) \<longrightarrow> IsZero (Next e)))"
  by (auto simp: never_is_zero_def)

lemma never_is_zero_run_init: "never_is_zero (entries (run_init c now))"
  by (simp add: run_init_def never_is_zero_sort) (simp add: never_is_zero_def never_fires_def)

lemma never_is_zero_run_due:
  assumes "never_is_zero es"
  shows "never_is_zero (fst (run_due now es))"
proof -
  have "never_fires (Schedule x) \<longrightarrow> IsZero (Next x)"
    if "x \<in> set (map (fire now) (takeWhile (due now) es) @ dropWhile (due now) es)" for x
  proof -
    from that consider e where "e \<in> set es" "x = fire now e" | "x \<in> set es"
      by (auto dest: set_takeWhileD set_dropWhileD)
    then show ?thesis
    proof cases
      case 1
      then show ?thesis by (simp add: fire_def never_fires_def)
    next
      case 2
      with assms show ?thesis by (simp add: never_is_zero_def)
    qed
  qed
  then show ?thesis unfolding run_due_scan fst_conv never_is_zero_def by blast
qed

lemma set_loop_RemoveC: "set (entries (fst (loop_pass c (RemoveC i)))) \<subseteq> set (entries c)"
  unfolding loop_pass_RemoveC
  by (auto simp: set_sort_byTime dest: in_set_dropD in_set_takeD)

lemma removal_subset:
  assumes "is_removal ev"
  shows "set (entries (fst (exec1 c ev))) \<subseteq> set (entries c)"
proof (cases ev)
  case (Call f now)
  show ?thesis
  proof (cases f)
    case (Op_Remove i)
    then show ?thesis using Call set_loop_RemoveC [of c i]
      by (auto simp: exec1_Remove)
  next
    case Op_RemoveAll
    then show ?thesis using Call set_loop_RemoveC [of c "- 1"]
      by (auto simp: exec1_RemoveAll)
  next
    case Op_RemoveFirst
    then show ?thesis using Call set_loop_RemoveC [of c "- 2"]
      by (auto simp: exec1_RemoveFirst dest: in_set_dropD)
  next
    case Op_RemoveLast
    then show ?thesis using Call set_loop_RemoveC [of c "- 3"]
      by (auto simp: exec1_RemoveLast dest: in_set_takeD)
  qed (use assms Call in simp_all)
next
  case (TimerFires now)
  with assms show ?thesis by simp
qed

lemma never_is_zero_exec1:
  assumes "never_is_zero (entries c)"
  shows "never_is_zero (entries (fst (exec1 c ev)))"
proof (cases "is_removal ev")
  case True
  from never_is_zero_subset [OF assms removal_subset [OF True]] show ?thesis .
next
  case False
  show ?thesis
  proof (cases ev)
    case (Call f now)
    show ?thesis
    proof (cases f)
      case (Op_Schedule s j ext)
      show ?thesis
      proof (cases "new_entry s j ext")
        case (Inl p)
        with assms Call Op_Schedule show ?thesis by (simp add: exec1_Schedule)
      next
        case (Inr entry)
        from new_entry_fields [OF Inr] have "Next entry = 0" by simp
        with assms Call Op_Schedule Inr show ?thesis
          by (simp add: exec1_Schedule never_is_zero_sort never_is_zero_append never_fires_def
              IsZero_def)
      qed
    next
      case Op_Start
      with assms Call show ?thesis by (simp add: exec1_Start never_is_zero_run_init)
    next
      case Op_Entries
      with assms Call show ?thesis by (simp add: exec1_Entries)
    next
      case Op_Stop
      with assms Call show ?thesis by (simp add: exec1_Stop)
    qed (use False Call in simp_all)
  next
    case (TimerFires now)
    with assms show ?thesis
      by (simp add: exec1_TimerFires never_is_zero_sort never_is_zero_run_due)
  qed
qed

lemma never_is_zero_exec:
  "never_is_zero (entries c) \<Longrightarrow> never_is_zero (entries (fst (exec c evs)))"
proof (induction evs arbitrary: c)
  case Nil
  then show ?case by simp
next
  case (Cons ev evs)
  then show ?case
    unfolding exec_Cons_fst using never_is_zero_exec1 by blast
qed

lemma never_not_spawned:
  assumes "never_is_zero (entries c)" "never_fires (Schedule e)"
  shows "Go_runWithRecovery e args \<notin> set (snd (exec c evs))"
  using assms
proof (induction evs arbitrary: c)
  case Nil
  show ?case by simp
next
  case (Cons ev evs)
  have "Go_runWithRecovery e args \<notin> set (snd (exec1 c ev))"
  proof
    assume "Go_runWithRecovery e args \<in> set (snd (exec1 c ev))"
    from spawn_exec1 [OF this] obtain now where "e \<in> set (entries c)" "due now e"
      by blast
    with Cons.prems show False by (auto simp: never_is_zero_def due_def)
  qed
  moreover have "Go_runWithRecovery e args \<notin> set (snd (exec (fst (exec1 c ev)) evs))"
    using Cons.IH [OF never_is_zero_exec1 [OF Cons.prems(1)] Cons.prems(2)] .
  ultimately show ?case unfolding exec_Cons_snd by simp
qed

lemma Next_update_same: "Next e = t \<Longrightarrow> e\<lparr>Next := t\<rparr> = e"
  by (cases e) simp

lemma in_dropWhile: "e \<in> set es \<Longrightarrow> \<not> P e \<Longrightarrow> e \<in> set (dropWhile P es)"
  by (induction es) auto

lemma stays_run_due:
  "e \<in> set es \<Longrightarrow> IsZero (Next e) \<Longrightarrow> e \<in> set (fst (run_due now es))"
  unfolding run_due_scan fst_conv
  by (simp add: in_dropWhile due_def)

lemma stays_run_init:
  assumes "e \<in> set (entries c)" "never_fires (Schedule e)" "IsZero (Next e)"
  shows "e \<in> set (entries (run_init c now))"
proof -
  have "Next e = Schedule e now"
    using assms by (simp add: never_fires_def IsZero_def)
  then have "e\<lparr>Next := Schedule e now\<rparr> = e" by (simp add: Next_update_same)
  with assms(1) have "e \<in> (\<lambda>entry. entry\<lparr>Next := Schedule entry now\<rparr>) ` set (entries c)"
    by force
  then show ?thesis by (simp add: run_init_def set_sort_byTime)
qed

lemma stays_exec1:
  assumes "e \<in> set (entries c)" "never_fires (Schedule e)" "IsZero (Next e)" "\<not> is_removal ev"
  shows "e \<in> set (entries (fst (exec1 c ev)))"
proof (cases ev)
  case (Call f now)
  show ?thesis
  proof (cases f)
    case (Op_Schedule s j ext)
    with assms Call show ?thesis
      by (cases "new_entry s j ext") (simp_all add: exec1_Schedule set_sort_byTime)
  next
    case Op_Start
    with assms Call stays_run_init [of e "c\<lparr>running := True\<rparr>" now] show ?thesis
      by (simp add: exec1_Start)
  next
    case Op_Entries
    with assms Call show ?thesis by (simp add: exec1_Entries)
  next
    case Op_Stop
    with assms Call show ?thesis by (simp add: exec1_Stop)
  qed (use assms Call in simp_all)
next
  case (TimerFires now)
  with assms show ?thesis
    by (simp add: exec1_TimerFires set_sort_byTime stays_run_due)
qed

lemma stays_exec:
  assumes "e \<in> set (entries c)" "never_fires (Schedule e)" "IsZero (Next e)"
    "\<forall>ev\<in>set evs. \<not> is_removal ev"
  shows "e \<in> set (entries (fst (exec c evs)))"
  using assms
proof (induction evs arbitrary: c)
  case Nil
  then show ?case by simp
next
  case (Cons ev evs)
  from Cons.prems have "e \<in> set (entries (fst (exec1 c ev)))"
    by (intro stays_exec1) simp_all
  with Cons show ?case unfolding exec_Cons_fst by simp
qed

lemma never_is_zero_New: "never_is_zero (entries (NewWithLocation loc))"
  by (simp add: NewWithLocation_def never_is_zero_def)

text \<open>
  C7. Take an entry whose schedule answers the zero time to every question. In no run
  of a new engine, whatever the calls and however often the timer fires, is a
  goroutine spawned for it. And once it is in the registry it stays there through
  every further sequence of events in which nothing is removed by a call: the loop
  never drops it.
\<close>

theorem never_schedule_never_runs:
  "never_fires (Schedule e) \<longrightarrow>
     Go_runWithRecovery e args \<notin> set (snd (exec (NewWithLocation loc) evs)) \<and>
     (e \<in> set (entries (fst (exec (NewWithLocation loc) evs))) \<and>
      (\<forall>ev\<in>set evs'. \<not> is_removal ev) \<longrightarrow>
        e \<in> set (entries (fst (exec (NewWithLocation loc) (evs @ evs')))))"
proof
  assume n: "never_fires (Schedule e)"
  let ?c = "fst (exec (NewWithLocation loc) evs)"
  have z: "never_is_zero (entries ?c)"
    using never_is_zero_New by (rule never_is_zero_exec)
  have "e \<in> set (entries (fst (exec (NewWithLocation loc) (evs @ evs'))))"
    if "e \<in> set (entries ?c)" "\<forall>ev\<in>set evs'. \<not> is_removal ev"
  proof -
    from z that(1) n have "IsZero (Next e)" by (simp add: never_is_zero_def)
    from stays_exec [OF that(1) n this that(2)] show ?thesis
      by (simp only: exec_append_fst)
  qed
  moreover have "Go_runWithRecovery e args \<notin> set (snd (exec (NewWithLocation loc) evs))"
    using never_is_zero_New n by (rule never_not_spawned)
  ultimately show "Go_runWithRecovery e args \<notin> set (snd (exec (NewWithLocation loc) evs)) \<and>
     (e \<in> set (entries (fst (exec (NewWithLocation loc) evs))) \<and>
      (\<forall>ev\<in>set evs'. \<not> is_removal ev) \<longrightarrow>
        e \<in> set (entries (fst (exec (NewWithLocation loc) (evs @ evs')))))"
    by blast
qed

theorem never_schedule_never_runs_witness:
  "never_fires (Schedule (fixed_entry 0 0)) \<and>
   entries (fst (exec (NewWithLocation ''UTC'')
     [Call (Op_Schedule (\<lambda>after. 0) job_ok [Slice []]) 1, Call Op_Start 2]))
     = [fixed_entry 0 0] \<and>
   \<not> is_removal (TimerFires 3) \<and> \<not> is_removal (Call Op_Stop 4) \<and>
   fixed_entry 0 0 \<in> set (entries (fst (exec (NewWithLocation ''UTC'')
     ([Call (Op_Schedule (\<lambda>after. 0) job_ok [Slice []]) 1, Call Op_Start 2] @
      [TimerFires 3, Call Op_Stop 4])))) \<and>
   Go_runWithRecovery (fixed_entry 0 0) [] \<notin> set (snd (exec (NewWithLocation ''UTC'')
     [Call (Op_Schedule (\<lambda>after. 0) job_ok [Slice []]) 1, Call Op_Start 2]))"
proof -
  let ?evs = "[Call (Op_Schedule (\<lambda>after. 0) job_ok [Slice []]) 1, Call Op_Start 2]"
  let ?evs' = "[TimerFires 3, Call Op_Stop 4]"
  have n: "never_fires (Schedule (fixed_entry 0 0))"
    by (simp add: never_fires_def fixed_entry_def IsZero_def)
  have e: "entries (fst (exec (NewWithLocation ''UTC'') ?evs)) = [fixed_entry 0 0]"
    by (simp add: exec_Cons_fst exec1_Schedule new_entry_plain exec1_Start run_init_def
        NewWithLocation_def sort_byTime_def fixed_entry_def del: exec.simps(2))
  have r: "\<forall>ev\<in>set ?evs'. \<not> is_removal ev" by simp
  note th = never_schedule_never_runs [of "fixed_entry 0 0" "[]" "''UTC''" ?evs ?evs']
  from th n e r show ?thesis by simp
qed

section \<open>The two ways to change the registry\<close>

lemma same_contents_refl: "same_contents es es"
  by (simp add: same_contents_def)

lemma same_contents_sort: "same_contents (sort_byTime es) es' = same_contents es es'"
  unfolding same_contents_def mset_map mset_sort_byTime ..

lemma same_contents_Nil: "same_contents es [] = (es = [])" "same_contents [] es = (es = [])"
  by (auto simp: same_contents_def)

lemma core_fire: "core (fire now e) = core e"
  by (simp add: core_def fire_def)

lemma map_core_fire: "map core (map (fire now) xs) = map core xs"
  by (induction xs) (simp_all add: core_fire)

lemma same_contents_run_due: "same_contents (fst (run_due now es)) es"
proof -
  have "map core (map (fire now) (takeWhile (due now) es) @ dropWhile (due now) es) =
      map core (takeWhile (due now) es) @ map core (dropWhile (due now) es)"
    by (simp only: map_append map_core_fire)
  also have "\<dots> = map core es"
    by (simp only: map_append [symmetric] takeWhile_dropWhile_id)
  finally show ?thesis
    unfolding run_due_scan fst_conv same_contents_def by (rule arg_cong)
qed

lemma mset_core_filter:
  "mset (map core (filter (\<lambda>v. i \<noteq> Id_entry v) es)) =
     filter_mset (\<lambda>v. i \<noteq> Id_entry v) (mset (map core es))"
proof -
  have c: "(\<lambda>v. i \<noteq> Id_entry v) \<circ> core = (\<lambda>v. i \<noteq> Id_entry v)"
    by (simp add: fun_eq_iff core_def)
  have "filter (\<lambda>v. i \<noteq> Id_entry v) (map core es) =
      map core (filter ((\<lambda>v. i \<noteq> Id_entry v) \<circ> core) es)"
    by (rule filter_map)
  then have "map core (filter (\<lambda>v. i \<noteq> Id_entry v) es) =
      filter (\<lambda>v. i \<noteq> Id_entry v) (map core es)"
    unfolding c by (rule sym)
  then show ?thesis by (simp only: mset_filter)
qed

lemma same_contents_filter:
  "same_contents es es' \<Longrightarrow>
     same_contents (filter (\<lambda>v. i \<noteq> Id_entry v) es) (filter (\<lambda>v. i \<noteq> Id_entry v) es')"
  unfolding same_contents_def mset_core_filter by simp

lemma same_contents_snoc:
  "same_contents es es' \<Longrightarrow> core e = core e' \<Longrightarrow> same_contents (es @ [e]) (es' @ [e'])"
  by (simp add: same_contents_def)

lemma same_contents_trans:
  "same_contents xs ys \<Longrightarrow> same_contents ys zs \<Longrightarrow> same_contents xs zs"
  by (simp add: same_contents_def)

lemma same_contents_empty_iff: "same_contents es es' \<Longrightarrow> (es = []) = (es' = [])"
  by (metis same_contents_Nil(1) same_contents_Nil(2))

lemma paths_step:
  assumes r: "running cr" and s: "\<not> running cs"
    and sc: "same_contents (entries cr) (entries cs)" and i: "id_cron cr = id_cron cs"
    and a: "allowed ev"
  shows "running (fst (exec1 cr ev)) \<and> \<not> running (fst (exec1 cs ev)) \<and>
     same_contents (entries (fst (exec1 cr ev))) (entries (fst (exec1 cs ev))) \<and>
     id_cron (fst (exec1 cr ev)) = id_cron (fst (exec1 cs ev))"
proof (cases ev)
  case (Call f now)
  show ?thesis
  proof (cases f)
    case (Op_Schedule sch j ext)
    show ?thesis
    proof (cases "new_entry sch j ext")
      case (Inl p)
      with Call Op_Schedule r s sc i show ?thesis by (simp add: exec1_Schedule)
    next
      case (Inr entry)
      have "core (entry\<lparr>Next := Schedule entry now, Id_entry := id_cron cs\<rparr>) =
          core (entry\<lparr>Id_entry := id_cron cs\<rparr>)"
        by (simp add: core_def)
      with sc have "same_contents
          (entries cr @ [entry\<lparr>Next := Schedule entry now, Id_entry := id_cron cs\<rparr>])
          (entries cs @ [entry\<lparr>Id_entry := id_cron cs\<rparr>])"
        by (rule same_contents_snoc)
      with Call Op_Schedule Inr r s i show ?thesis
        by (simp add: exec1_Schedule same_contents_sort)
    qed
  next
    case Op_Entries
    with Call r s sc i show ?thesis by (simp add: exec1_Entries)
  next
    case (Op_Remove k)
    with a Call have k: "word_sle 0 k" by simp
    from sc have e: "(entries cr = []) = (entries cs = [])" by (rule same_contents_empty_iff)
    show ?thesis
    proof (cases "entries cs = []")
      case True
      with e Call Op_Remove r s sc i show ?thesis
        by (simp add: exec1_Remove loop_pass_RemoveC)
    next
      case False
      with e Call Op_Remove r s i k same_contents_filter [OF sc, of k] show ?thesis
        by (simp add: exec1_Remove loop_pass_RemoveC same_contents_sort)
    qed
  next
    case Op_RemoveAll
    have n: "\<not> word_sle 0 (- 1 :: int32)" by (simp add: word_sle_eq)
    from sc have e: "(entries cr = []) = (entries cs = [])" by (rule same_contents_empty_iff)
    show ?thesis
    proof (cases "entries cs = []")
      case True
      with e Call Op_RemoveAll r s sc i show ?thesis
        by (simp add: exec1_RemoveAll loop_pass_RemoveC same_contents_Nil)
    next
      case False
      with e Call Op_RemoveAll r s i n show ?thesis
        by (simp add: exec1_RemoveAll loop_pass_RemoveC same_contents_Nil sort_byTime_def)
    qed
  qed (use a Call in simp_all)
next
  case (TimerFires now)
  have "same_contents (sort_byTime (fst (run_due now (entries cr)))) (entries cs)"
    unfolding same_contents_sort
    using same_contents_run_due sc by (rule same_contents_trans)
  with TimerFires r s i show ?thesis
    by (simp add: exec1_TimerFires)
qed

lemma paths_exec:
  assumes "running cr" "\<not> running cs" "same_contents (entries cr) (entries cs)"
    "id_cron cr = id_cron cs" "\<forall>ev\<in>set evs. allowed ev"
  shows "running (fst (exec cr evs)) \<and> \<not> running (fst (exec cs evs)) \<and>
     same_contents (entries (fst (exec cr evs))) (entries (fst (exec cs evs))) \<and>
     id_cron (fst (exec cr evs)) = id_cron (fst (exec cs evs))"
  using assms
proof (induction evs arbitrary: cr cs)
  case Nil
  then show ?case by simp
next
  case (Cons ev evs)
  from Cons.prems have "allowed ev" by simp
  from paths_step [OF Cons.prems(1-4) this] Cons.prems(5) show ?case
    unfolding exec_Cons_fst by (intro Cons.IH) simp_all
qed

lemma exec_append_snd:
  "snd (exec c (evs @ evs')) = snd (exec c evs) @ snd (exec (fst (exec c evs)) evs')"
  by (induction evs arbitrary: c) (simp_all add: split_beta)

lemma snapshots_append: "snapshots (xs @ ys) = snapshots xs @ snapshots ys"
  by (simp add: snapshots_def)

lemma snapshots_Entries: "snapshots (snd (exec1 c (Call Op_Entries now))) = [entrySnapshot c]"
  by (simp add: exec1_Entries snapshots_def)

lemma last_snapshot:
  "last (snapshots (snd (exec c (evs @ [Call Op_Entries now])))) =
     entrySnapshot (fst (exec c evs))"
  by (simp add: exec_append_snd snapshots_append split_beta snapshots_Entries)

lemma same_contents_entrySnapshot:
  assumes "same_contents (entries c) (entries c')"
  shows "same_contents (entrySnapshot c) (entrySnapshot c')"
proof -
  let ?copy = "\<lambda>e. \<lparr>Schedule = Schedule e, Next = Next e, Prev = Prev e, Job = Job e,
      Id_entry = Id_entry e, ArgLen = ArgLen e, Tag = Tag e, Task = [], Params = []\<rparr>"
  have "map core (entrySnapshot d) = map ?copy (map core (entries d))" for d
    by (simp add: entrySnapshot_def core_def)
  then have "mset (map core (entrySnapshot d)) = image_mset ?copy (mset (map core (entries d)))"
    for d by (simp only: mset_map)
  with assms show ?thesis by (simp only: same_contents_def)
qed

lemma same_contents_run_init: "same_contents (entries (run_init c now)) (entries c)"
proof -
  have "map core (map (\<lambda>entry. entry\<lparr>Next := Schedule entry now\<rparr>) es) = map core es" for es
    by (induction es) (simp_all add: core_def)
  then have "mset (map core (map (\<lambda>entry. entry\<lparr>Next := Schedule entry now\<rparr>) (entries c))) =
      mset (map core (entries c))"
    by (rule arg_cong)
  then have "same_contents (map (\<lambda>entry. entry\<lparr>Next := Schedule entry now\<rparr>) (entries c))
      (entries c)"
    by (simp only: same_contents_def)
  then show ?thesis
    by (simp add: run_init_def same_contents_sort)
qed

text \<open>
  C5 (as amended). Take a stopped engine and a sequence of registrations, removals by
  an identity \<open>\<ge> 0\<close>, \<^verbatim>\<open>RemoveAll\<close> calls and snapshots, with the timer firing in
  between at any times. Run it on the engine once started first, so that every call
  goes through the loop, and once as it is, so that every call changes the registry
  directly. The two registries then hold the same entries up to their order and up to
  the fire times \<open>Next\<close> and \<open>Prev\<close>, the two counters of identities agree, and so do the
  snapshots taken at the end.
\<close>

theorem mutation_paths_agree:
  "\<not> running c \<and> (\<forall>ev\<in>set evs. allowed ev) \<longrightarrow>
     same_contents (entries (fst (exec c (Call Op_Start t0 # evs))))
       (entries (fst (exec c evs))) \<and>
     id_cron (fst (exec c (Call Op_Start t0 # evs))) = id_cron (fst (exec c evs)) \<and>
     same_contents
       (last (snapshots (snd (exec c (Call Op_Start t0 # evs @ [Call Op_Entries t1])))))
       (last (snapshots (snd (exec c (evs @ [Call Op_Entries t1])))))"
proof
  assume h: "\<not> running c \<and> (\<forall>ev\<in>set evs. allowed ev)"
  let ?cr = "fst (exec1 c (Call Op_Start t0))"
  have cr: "?cr = run_init (c\<lparr>running := True\<rparr>) t0"
    using h by (simp add: exec1_Start)
  have 1: "running ?cr" and 2: "id_cron ?cr = id_cron c"
    unfolding cr by (simp_all add: run_init_def)
  have 3: "same_contents (entries ?cr) (entries c)"
    unfolding cr using same_contents_run_init [of "c\<lparr>running := True\<rparr>" t0] by simp
  from h have 4: "\<not> running c" and 5: "\<forall>ev\<in>set evs. allowed ev" by blast+
  note p = paths_exec [OF 1 4 3 2 5]
  have a: "fst (exec c (Call Op_Start t0 # evs)) = fst (exec ?cr evs)"
    by (rule exec_Cons_fst)
  have b: "last (snapshots (snd (exec c (Call Op_Start t0 # evs @ [Call Op_Entries t1])))) =
      entrySnapshot (fst (exec ?cr evs))"
    using last_snapshot [of c "Call Op_Start t0 # evs" t1] unfolding a by simp
  have d: "last (snapshots (snd (exec c (evs @ [Call Op_Entries t1])))) =
      entrySnapshot (fst (exec c evs))"
    by (rule last_snapshot)
  from p have "same_contents (entrySnapshot (fst (exec ?cr evs))) (entrySnapshot (fst (exec c evs)))"
    by (intro same_contents_entrySnapshot) blast
  with p show "same_contents (entries (fst (exec c (Call Op_Start t0 # evs))))
       (entries (fst (exec c evs))) \<and>
     id_cron (fst (exec c (Call Op_Start t0 # evs))) = id_cron (fst (exec c evs)) \<and>
     same_contents
       (last (snapshots (snd (exec c (Call Op_Start t0 # evs @ [Call Op_Entries t1])))))
       (last (snapshots (snd (exec c (evs @ [Call Op_Entries t1])))))"
    unfolding a b d by blast
qed

theorem mutation_paths_agree_witness:
  "\<not> running (NewWithLocation ''UTC'') \<and>
   allowed (Call (Op_Schedule (\<lambda>after. 10) job_ok [Slice []]) 1) \<and>
   allowed (Call (Op_Schedule (\<lambda>after. 5) job_ok [Slice []]) 2) \<and>
   allowed (Call (Op_Remove 0) 3) \<and> allowed (TimerFires 20) \<and>
   same_contents
     (last (snapshots (snd (exec (NewWithLocation ''UTC'')
        (Call Op_Start 0 #
         [Call (Op_Schedule (\<lambda>after. 10) job_ok [Slice []]) 1,
          Call (Op_Schedule (\<lambda>after. 5) job_ok [Slice []]) 2,
          Call (Op_Remove 0) 3, TimerFires 20] @ [Call Op_Entries 30])))))
     (last (snapshots (snd (exec (NewWithLocation ''UTC'')
        ([Call (Op_Schedule (\<lambda>after. 10) job_ok [Slice []]) 1,
          Call (Op_Schedule (\<lambda>after. 5) job_ok [Slice []]) 2,
          Call (Op_Remove 0) 3, TimerFires 20] @ [Call Op_Entries 30])))))"
proof -
  let ?evs = "[Call (Op_Schedule (\<lambda>after. 10) job_ok [Slice []]) 1,
          Call (Op_Schedule (\<lambda>after. 5) job_ok [Slice []]) 2,
          Call (Op_Remove 0) 3, TimerFires 20]"
  have r: "\<not> running (NewWithLocation ''UTC'')" by (simp add: NewWithLocation_def)
  have w: "word_sle 0 (0 :: int32)" by simp
  have a: "\<forall>ev\<in>set ?evs. allowed ev" using w by simp
  from mutation_paths_agree [of "NewWithLocation ''UTC''" ?evs 0 30] r a
  have "same_contents
     (last (snapshots (snd (exec (NewWithLocation ''UTC'')
        (Call Op_Start 0 # ?evs @ [Call Op_Entries 30])))))
     (last (snapshots (snd (exec (NewWithLocation ''UTC'') (?evs @ [Call Op_Entries 30])))))"
    by blast
  with r w show ?thesis by simp
qed

lemmas run_eval = exec_Cons_snd exec_Cons_fst exec1_Schedule exec1_Entries exec1_Start
  exec1_Remove exec1_RemoveFirst loop_pass_RemoveC new_entry_plain run_init_def
  NewWithLocation_def sort_byTime_def Less_def IsZero_def Before_def snapshots_def
  entrySnapshot_def word_sle_eq

text \<open>
  C5 as stated fails. After two registrations, the second one firing sooner,
  \<^verbatim>\<open>RemoveFirst\<close> drops the entry registered first on a stopped engine and the entry
  registered second on a running one. After one registration the snapshot shows the
  \<open>Next\<close> the loop computed on a running engine and the zero time on a stopped one.
  \<^verbatim>\<open>Remove(-5)\<close> does nothing on a running engine and empties the registry of a
  stopped one.
\<close>

theorem mutation_paths_differ_counterexample:
  "map Id_entry (last (snapshots (snd (exec (NewWithLocation ''UTC'')
      [Call Op_Start 0,
       Call (Op_Schedule (\<lambda>after. 10) job_ok [Slice []]) 1,
       Call (Op_Schedule (\<lambda>after. 5) job_ok [Slice []]) 2,
       Call Op_RemoveFirst 3, Call Op_Entries 4])))) = [0] \<and>
   map Id_entry (last (snapshots (snd (exec (NewWithLocation ''UTC'')
      [Call (Op_Schedule (\<lambda>after. 10) job_ok [Slice []]) 1,
       Call (Op_Schedule (\<lambda>after. 5) job_ok [Slice []]) 2,
       Call Op_RemoveFirst 3, Call Op_Entries 4])))) = [1] \<and>
   map Next (last (snapshots (snd (exec (NewWithLocation ''UTC'')
      [Call Op_Start 0,
       Call (Op_Schedule (\<lambda>after. 10) job_ok [Slice []]) 1, Call Op_Entries 4])))) = [10] \<and>
   map Next (last (snapshots (snd (exec (NewWithLocation ''UTC'')
      [Call (Op_Schedule (\<lambda>after. 10) job_ok [Slice []]) 1, Call Op_Entries 4])))) = [0] \<and>
   map Id_entry (last (snapshots (snd (exec (NewWithLocation ''UTC'')
      [Call Op_Start 0,
       Call (Op_Schedule (\<lambda>after. 10) job_ok [Slice []]) 1,
       Call (Op_Remove (- 5)) 3, Call Op_Entries 4])))) = [0] \<and>
   map Id_entry (last (snapshots (snd (exec (NewWithLocation ''UTC'')
      [Call (Op_Schedule (\<lambda>after. 10) job_ok [Slice []]) 1,
       Call (Op_Remove (- 5)) 3, Call Op_Entries 4])))) = []"
proof -
  have 1: "map Id_entry (last (snapshots (snd (exec (NewWithLocation ''UTC'')
      [Call Op_Start 0,
       Call (Op_Schedule (\<lambda>after. 10) job_ok [Slice []]) 1,
       Call (Op_Schedule (\<lambda>after. 5) job_ok [Slice []]) 2,
       Call Op_RemoveFirst 3, Call Op_Entries 4])))) = [0]"
    by (simp add: run_eval del: exec.simps(2))
  have 2: "map Id_entry (last (snapshots (snd (exec (NewWithLocation ''UTC'')
      [Call (Op_Schedule (\<lambda>after. 10) job_ok [Slice []]) 1,
       Call (Op_Schedule (\<lambda>after. 5) job_ok [Slice []]) 2,
       Call Op_RemoveFirst 3, Call Op_Entries 4])))) = [1]"
    by (simp add: run_eval del: exec.simps(2))
  have 3: "map Next (last (snapshots (snd (exec (NewWithLocation ''UTC'')
      [Call Op_Start 0,
       Call (Op_Schedule (\<lambda>after. 10) job_ok [Slice []]) 1, Call Op_Entries 4])))) = [10]"
    by (simp add: run_eval del: exec.simps(2))
  have 4: "map Next (last (snapshots (snd (exec (NewWithLocation ''UTC'')
      [Call (Op_Schedule (\<lambda>after. 10) job_ok [Slice []]) 1, Call Op_Entries 4])))) = [0]"
    by (simp add: run_eval del: exec.simps(2))
  have 5: "map Id_entry (last (snapshots (snd (exec (NewWithLocation ''UTC'')
      [Call Op_Start 0,
       Call (Op_Schedule (\<lambda>after. 10) job_ok [Slice []]) 1,
       Call (Op_Remove (- 5)) 3, Call Op_Entries 4])))) = [0]"
    by (simp add: run_eval del: exec.simps(2))
  have 6: "map Id_entry (last (snapshots (snd (exec (NewWithLocation ''UTC'')
      [Call (Op_Schedule (\<lambda>after. 10) job_ok [Slice []]) 1,
       Call (Op_Remove (- 5)) 3, Call Op_Entries 4])))) = []"
    by (simp add: run_eval del: exec.simps(2))
  from 1 2 3 4 5 6 show ?thesis by blast
qed

end
